theory Spec2Isabelle
  imports Complex_Main "HOL-Library.Multiset"
begin

section \<open>Data model\<close>

text \<open>
  The module \<^verbatim>\<open>harmony/matching/deterministic_clustering.py\<close> reads a list of
  \<^verbatim>\<open>Question\<close> objects (only their \<^verbatim>\<open>question_text\<close>), a two-dimensional
  numpy array and an integer, and returns a list of \<^verbatim>\<open>HarmonyCluster\<close> objects
  (the field \<^verbatim>\<open>keywords\<close> is called \<open>cluster_keywords\<close> here, after the variable it
  is filled from).
  Floating point numbers are modelled as reals: rounding and NaN are outside the model.
\<close>

record question =
  question_text :: string

record harmony_cluster =
  cluster_id :: nat
  centroid_id :: nat
  centroid :: question
  items :: "question list"
  item_ids :: "nat list"
  text_description :: string
  cluster_keywords :: "string list"

text \<open>
  A two-dimensional \<^verbatim>\<open>np.ndarray\<close>: its shape and its entries. Entries are only ever
  read inside the shape.
\<close>

record ndarray =
  shape0 :: nat
  shape1 :: nat
  entry :: "nat \<Rightarrow> nat \<Rightarrow> real"

definition of_rows :: "real list list \<Rightarrow> ndarray" where
  "of_rows rows =
     \<lparr>shape0 = length rows,
      shape1 = (case rows of [] \<Rightarrow> 0 | r # _ \<Rightarrow> length r),
      entry = (\<lambda>y x. rows ! y ! x)\<rparr>"

text \<open>The exceptions the module can raise by itself.\<close>

datatype error = IndexError | ValueError

text \<open>
  What the module takes from its runtime: the sentence embedding model
  (\<^verbatim>\<open>model.encode\<close>, one row per text), numpy's \<^verbatim>\<open>argsort\<close>, and the order in which
  Python iterates over a \<^verbatim>\<open>set\<close> of integers, given the order in which the elements
  were added to it.
\<close>

record runtime =
  encode :: "string list \<Rightarrow> ndarray"
  argsort :: "real list \<Rightarrow> nat list"
  set_iter :: "nat list \<Rightarrow> nat list"

section \<open>Representative texts: \<^verbatim>\<open>generate_semantic_keywords\<close>\<close>

definition row :: "ndarray \<Rightarrow> nat \<Rightarrow> real list" where
  "row a i = map (entry a i) [0..<shape1 a]"

text \<open>\<^verbatim>\<open>embeddings.mean(axis=0, keepdims=True)\<close>: the mean of every column.\<close>

definition mean_axis0 :: "ndarray \<Rightarrow> real list" where
  "mean_axis0 a =
     map (\<lambda>j. (\<Sum>i\<leftarrow>[0..<shape0 a]. entry a i j) / real (shape0 a)) [0..<shape1 a]"

text \<open>
  \<^verbatim>\<open>sklearn.metrics.pairwise.cosine_similarity\<close> normalises each row by its Euclidean
  norm, a zero norm being replaced by one, and takes the dot product.
\<close>

definition l2_normalize :: "real list \<Rightarrow> real list" where
  "l2_normalize v =
     (let n = sqrt (\<Sum>c\<leftarrow>v. c * c); n' = (if n = 0 then 1 else n)
      in map (\<lambda>c. c / n') v)"

definition cosine_similarity :: "real list \<Rightarrow> real list \<Rightarrow> real" where
  "cosine_similarity u v =
     (\<Sum>(a, b)\<leftarrow>zip (l2_normalize u) (l2_normalize v). a * b)"

text \<open>The Python slice \<^verbatim>\<open>xs[start:]\<close> for an integer \<^verbatim>\<open>start\<close> of either sign.\<close>

definition slice_from :: "'a list \<Rightarrow> int \<Rightarrow> 'a list" where
  "slice_from xs start =
     (let n = int (length xs);
          s = (if start < 0 then max (start + n) 0 else min start n)
      in drop (nat s) xs)"

text \<open>\<^verbatim>\<open>[texts[idx] for idx in top_indices]\<close>, raising on an index out of range.\<close>

fun take_texts :: "string list \<Rightarrow> nat list \<Rightarrow> error + string list" where
  "take_texts texts [] = Inr []"
| "take_texts texts (idx # idxs) =
     (if idx < length texts
      then (case take_texts texts idxs of
              Inl e \<Rightarrow> Inl e
            | Inr ks \<Rightarrow> Inr (texts ! idx # ks))
      else Inl IndexError)"

definition similarities :: "ndarray \<Rightarrow> real list" where
  "similarities embeddings =
     map (\<lambda>i. cosine_similarity (mean_axis0 embeddings) (row embeddings i))
       [0..<shape0 embeddings]"

text \<open>
  The function returns its result together with the list of calls it made to the
  embedding provider (the argument of each call), so that "the provider is not called"
  is a statement about the second component.
\<close>

definition generate_semantic_keywords ::
  "runtime \<Rightarrow> question list \<Rightarrow> int \<Rightarrow> (error + string list) \<times> string list list" where
  "generate_semantic_keywords rt cluster_items top_k =
     (let texts = map question_text cluster_items in
      if texts = [] then (Inr [], [])
      else
        let embeddings = encode rt texts;
            top_indices = rev (slice_from (argsort rt (similarities embeddings)) (- top_k))
        in (take_texts texts top_indices, [texts]))"

section \<open>The graph library\<close>

text \<open>
  A \<^verbatim>\<open>networkx.Graph\<close>: the nodes in the order they were added, and the undirected edges
  in the order they were first added. Adding an edge adds its end points when they are
  missing; adding it again changes nothing.
\<close>

record graph =
  nodes :: "nat list"
  edges :: "(nat \<times> nat) list"

definition empty_graph :: graph where
  "empty_graph = \<lparr>nodes = [], edges = []\<rparr>"

definition add_node :: "graph \<Rightarrow> nat \<Rightarrow> graph" where
  "add_node g v = (if v \<in> set (nodes g) then g else g\<lparr>nodes := nodes g @ [v]\<rparr>)"

definition add_nodes_from :: "graph \<Rightarrow> nat list \<Rightarrow> graph" where
  "add_nodes_from g vs = foldl add_node g vs"

definition add_edge :: "graph \<Rightarrow> nat \<Rightarrow> nat \<Rightarrow> graph" where
  "add_edge g u v =
     (let g' = add_node (add_node g u) v
      in if (u, v) \<in> set (edges g') \<or> (v, u) \<in> set (edges g') then g'
         else g'\<lparr>edges := edges g' @ [(u, v)]\<rparr>)"

text \<open>The neighbours of a node, in the order the edges were added.\<close>

definition adj :: "graph \<Rightarrow> nat \<Rightarrow> nat list" where
  "adj g v =
     concat (map (\<lambda>(a, b). if a = v then [b] else if b = v then [a] else []) (edges g))"

text \<open>
  The breadth-first search behind \<^verbatim>\<open>nx.connected_components\<close>. The set \<^verbatim>\<open>seen\<close> is kept
  as the list of its elements in the order they were added.
  \<^verbatim>\<open>
  seen = {source}; nextlevel = [source]
  while nextlevel:
      thislevel = nextlevel; nextlevel = []
      for v in thislevel:
          for w in adj[v]:
              if w not in seen:
                  seen.add(w); nextlevel.append(w)
  return seen
  \<close>
  (The library also leaves the loop as soon as \<^verbatim>\<open>seen\<close> holds every node, which changes
  neither the set nor the order of its elements.)
\<close>

fun visit_neighbours :: "nat list \<Rightarrow> nat list \<times> nat list \<Rightarrow> nat list \<times> nat list" where
  "visit_neighbours [] (seen, nextlevel) = (seen, nextlevel)"
| "visit_neighbours (w # ws) (seen, nextlevel) =
     (if w \<in> set seen then visit_neighbours ws (seen, nextlevel)
      else visit_neighbours ws (seen @ [w], nextlevel @ [w]))"

fun scan_level :: "graph \<Rightarrow> nat list \<Rightarrow> nat list \<times> nat list \<Rightarrow> nat list \<times> nat list" where
  "scan_level g [] st = st"
| "scan_level g (v # vs) st = scan_level g vs (visit_neighbours (adj g v) st)"

function plain_bfs_loop :: "graph \<Rightarrow> nat list \<Rightarrow> nat list \<Rightarrow> nat list" where
  "plain_bfs_loop g seen nextlevel =
     (if nextlevel = [] then seen
      else plain_bfs_loop g (fst (scan_level g nextlevel (seen, [])))
                            (snd (scan_level g nextlevel (seen, []))))"
  by pat_completeness auto
termination
proof (relation "measure (\<lambda>(g, seen, nextlevel).
         2 * card (set (map fst (edges g)) \<union> set (map snd (edges g)) - set seen)
         + (if nextlevel = [] then 0 else 1))")
  show "wf (measure (\<lambda>(g, seen, nextlevel).
         2 * card (set (map fst (edges g)) \<union> set (map snd (edges g)) - set seen)
         + (if nextlevel = [] then 0 else 1)))"
    by simp
next
  fix g :: graph and seen nextlevel :: "nat list"
  assume "nextlevel \<noteq> []"
  let ?V = "set (map fst (edges g)) \<union> set (map snd (edges g))"
  have adj_sub: "set (adj g v) \<subseteq> ?V" for v
    by (force simp: adj_def split: if_splits)
  have visit: "\<exists>new. fst (visit_neighbours ws (s, n)) = s @ new
                   \<and> snd (visit_neighbours ws (s, n)) = n @ new
                   \<and> set new \<subseteq> set ws - set s" for ws s n
  proof (induction ws arbitrary: s n)
    case Nil
    show ?case by simp
  next
    case (Cons w ws)
    show ?case
    proof (cases "w \<in> set s")
      case True
      with Cons.IH [of s n] show ?thesis by auto
    next
      case False
      from Cons.IH [of "s @ [w]" "n @ [w]"] obtain new where
        "fst (visit_neighbours ws (s @ [w], n @ [w])) = (s @ [w]) @ new"
        "snd (visit_neighbours ws (s @ [w], n @ [w])) = (n @ [w]) @ new"
        "set new \<subseteq> set ws - set (s @ [w])"
        by blast
      with False show ?thesis
        by (intro exI [of _ "w # new"]) auto
    qed
  qed
  have scan: "\<exists>new. fst (scan_level g vs (s, n)) = s @ new
                  \<and> snd (scan_level g vs (s, n)) = n @ new
                  \<and> set new \<subseteq> ?V - set s" for vs s n
  proof (induction vs arbitrary: s n)
    case Nil
    show ?case by simp
  next
    case (Cons v vs)
    from visit [of "adj g v" s n] obtain new1 where n1:
      "visit_neighbours (adj g v) (s, n) = (s @ new1, n @ new1)"
      "set new1 \<subseteq> set (adj g v) - set s"
      by (metis prod.collapse)
    from Cons.IH [of "s @ new1" "n @ new1"] obtain new2 where n2:
      "fst (scan_level g vs (s @ new1, n @ new1)) = (s @ new1) @ new2"
      "snd (scan_level g vs (s @ new1, n @ new1)) = (n @ new1) @ new2"
      "set new2 \<subseteq> ?V - set (s @ new1)"
      by blast
    from n1 n2 adj_sub [of v] show ?case
      by (intro exI [of _ "new1 @ new2"]) auto
  qed
  from scan [of nextlevel seen "[]"] obtain new where new:
    "fst (scan_level g nextlevel (seen, [])) = seen @ new"
    "snd (scan_level g nextlevel (seen, [])) = new"
    "set new \<subseteq> ?V - set seen"
    by auto
  have fin: "finite (?V - set seen)" by simp
  show "((g, fst (scan_level g nextlevel (seen, [])),
             snd (scan_level g nextlevel (seen, []))), (g, seen, nextlevel))
        \<in> measure (\<lambda>(g, seen, nextlevel).
             2 * card (set (map fst (edges g)) \<union> set (map snd (edges g)) - set seen)
             + (if nextlevel = [] then 0 else 1))"
  proof (cases "new = []")
    case True
    with new \<open>nextlevel \<noteq> []\<close> show ?thesis by simp
  next
    case False
    then obtain w where w: "w \<in> set new" by (cases new) auto
    have "?V - set (seen @ new) \<subset> ?V - set seen"
      using w new(3) by auto
    then have "card (?V - set (seen @ new)) < card (?V - set seen)"
      using fin by (intro psubset_card_mono) auto
    with new \<open>nextlevel \<noteq> []\<close> show ?thesis by simp
  qed
qed

declare plain_bfs_loop.simps [simp del]

definition plain_bfs :: "graph \<Rightarrow> nat \<Rightarrow> nat list" where
  "plain_bfs g source = plain_bfs_loop g [source] [source]"

text \<open>
  \<^verbatim>\<open>nx.connected_components\<close>: one search from every node not yet seen, in node order.
  \<^verbatim>\<open>
  seen = set()
  for v in G:
      if v not in seen:
          c = _plain_bfs(G, v); seen.update(c); yield c
  \<close>
\<close>

fun components_from :: "graph \<Rightarrow> nat list \<Rightarrow> nat list \<Rightarrow> nat list list" where
  "components_from g seen [] = []"
| "components_from g seen (v # vs) =
     (if v \<in> set seen then components_from g seen vs
      else plain_bfs g v # components_from g (seen @ plain_bfs g v) vs)"

definition connected_components :: "graph \<Rightarrow> nat list list" where
  "connected_components g = components_from g [] (nodes g)"

text \<open>\<^verbatim>\<open>nx.number_connected_components\<close> counts what \<^verbatim>\<open>connected_components\<close> yields.\<close>

definition number_connected_components :: "graph \<Rightarrow> nat" where
  "number_connected_components g = length (connected_components g)"

section \<open>The clustering: \<^verbatim>\<open>find_clusters_deterministic\<close>\<close>

text \<open>\<^verbatim>\<open>np.abs\<close>\<close>

definition np_abs :: "ndarray \<Rightarrow> ndarray" where
  "np_abs m = m\<lparr>entry := (\<lambda>y x. \<bar>entry m y x\<bar>)\<rparr>"

text \<open>
  The dictionary \<^verbatim>\<open>coord_to_sim\<close>, as the list of its items in insertion order (row by
  row); the keys are pairwise different, so no item is overwritten.
\<close>

definition coord_to_sim :: "ndarray \<Rightarrow> ((nat \<times> nat) \<times> real) list" where
  "coord_to_sim abs_similarities =
     concat (map (\<lambda>y. map (\<lambda>x. ((y, x), entry abs_similarities y x))
                         [0..<shape1 abs_similarities])
                 [0..<shape0 abs_similarities])"

text \<open>
  \<^verbatim>\<open>sorted(coord_to_sim.items(), key=lambda x: x[1], reverse=True)\<close>: Python's sort is
  stable, also with \<^verbatim>\<open>reverse=True\<close>, and so is \<^const>\<open>sort_key\<close>.
\<close>

definition ranked_edges :: "ndarray \<Rightarrow> ((nat \<times> nat) \<times> real) list" where
  "ranked_edges m = sort_key (\<lambda>item. - snd item) (coord_to_sim (np_abs m))"

text \<open>
  The loop over the ranked edges. The state is the graph and the counter
  \<^verbatim>\<open>total_score\<close>, a missing key of which reads as zero.
\<close>

fun merge_loop ::
  "int \<Rightarrow> ((nat \<times> nat) \<times> real) list \<Rightarrow> graph \<times> (nat \<Rightarrow> real) \<Rightarrow> graph \<times> (nat \<Rightarrow> real)" where
  "merge_loop num_clusters [] st = st"
| "merge_loop num_clusters (((y, x), sim) # rest) (g, total_score) =
     (if x \<noteq> y then
        (if int (number_connected_components g) \<le> num_clusters then (g, total_score)
         else
           let g' = add_edge g y x;
               total_score' = total_score(x := total_score x + sim);
               total_score'' = total_score'(y := total_score' y + sim)
           in merge_loop num_clusters rest (g', total_score''))
      else merge_loop num_clusters rest (g, total_score))"

definition merge :: "ndarray \<Rightarrow> int \<Rightarrow> graph \<times> (nat \<Rightarrow> real)" where
  "merge m num_clusters =
     merge_loop num_clusters (ranked_edges m)
       (add_nodes_from empty_graph [0..<shape0 m], (\<lambda>_. 0))"

definition final_graph :: "ndarray \<Rightarrow> int \<Rightarrow> graph" where
  "final_graph m num_clusters = fst (merge m num_clusters)"

definition total_score :: "ndarray \<Rightarrow> int \<Rightarrow> nat \<Rightarrow> real" where
  "total_score m num_clusters = snd (merge m num_clusters)"

text \<open>
  A Python dictionary as the list of its items in insertion order: an assignment to a
  key that is present replaces the value where it stands, a new key goes to the end.
\<close>

fun dict_set :: "('k \<times> 'v) list \<Rightarrow> 'k \<Rightarrow> 'v \<Rightarrow> ('k \<times> 'v) list" where
  "dict_set [] k v = [(k, v)]"
| "dict_set ((k', v') # d) k v = (if k' = k then (k, v) # d else (k', v') # dict_set d k v)"

text \<open>
  \<^verbatim>\<open>
  for component in nx.connected_components(graph):
      for idx in component:
          question_idx_to_group_idx[idx] = group_idx
      group_idx += 1
  \<close>
\<close>

fun assign_groups ::
  "runtime \<Rightarrow> nat list list \<Rightarrow> nat \<Rightarrow> (nat \<times> nat) list \<Rightarrow> (nat \<times> nat) list" where
  "assign_groups rt [] group_idx d = d"
| "assign_groups rt (component # rest) group_idx d =
     assign_groups rt rest (group_idx + 1)
       (foldl (\<lambda>d idx. dict_set d idx group_idx) d (set_iter rt component))"

definition question_idx_to_group_idx :: "runtime \<Rightarrow> graph \<Rightarrow> (nat \<times> nat) list" where
  "question_idx_to_group_idx rt g = assign_groups rt (connected_components g) 0 []"

text \<open>
  \<^verbatim>\<open>max(candidate_scores, key=candidate_scores.get)\<close>: the first key, in the dictionary's
  order, whose value no later value exceeds; \<^verbatim>\<open>max\<close> of nothing raises.
\<close>

fun max_from :: "(nat \<times> real) \<Rightarrow> (nat \<times> real) list \<Rightarrow> nat" where
  "max_from best [] = fst best"
| "max_from best (item # rest) = max_from (if snd best < snd item then item else best) rest"

definition max_key :: "(nat \<times> real) list \<Rightarrow> error + nat" where
  "max_key candidate_scores =
     (case candidate_scores of [] \<Rightarrow> Inl ValueError | item # rest \<Rightarrow> Inr (max_from item rest))"

text \<open>The body of the loop over the groups: one cluster, or the exception raised.\<close>

definition make_cluster ::
  "runtime \<Rightarrow> question list \<Rightarrow> (nat \<Rightarrow> real) \<Rightarrow> (nat \<times> nat) list \<Rightarrow> nat \<Rightarrow> nat
     \<Rightarrow> error + harmony_cluster" where
  "make_cluster rt questions score d group_no group_idx =
     (let ids = map fst (filter (\<lambda>(question_idx, g). g = group_idx) d) in
      if \<exists>question_idx \<in> set ids. length questions \<le> question_idx then Inl IndexError
      else
        let cluster_items = map (\<lambda>question_idx. questions ! question_idx) ids;
            candidate_scores = map (\<lambda>question_idx. (question_idx, score question_idx)) ids
        in case max_key candidate_scores of
             Inl e \<Rightarrow> Inl e
           | Inr best_question_idx \<Rightarrow>
               (case fst (generate_semantic_keywords rt cluster_items 5) of
                  Inl e \<Rightarrow> Inl e
                | Inr kws \<Rightarrow>
                    Inr \<lparr>cluster_id = group_no,
                         centroid_id = best_question_idx,
                         centroid = questions ! best_question_idx,
                         items = cluster_items,
                         item_ids = ids,
                         text_description = question_text (questions ! best_question_idx),
                         cluster_keywords = kws\<rparr>))"

fun make_clusters ::
  "runtime \<Rightarrow> question list \<Rightarrow> (nat \<Rightarrow> real) \<Rightarrow> (nat \<times> nat) list \<Rightarrow> (nat \<times> nat) list
     \<Rightarrow> error + harmony_cluster list" where
  "make_clusters rt questions score d [] = Inr []"
| "make_clusters rt questions score d ((group_no, group_idx) # rest) =
     (case make_cluster rt questions score d group_no group_idx of
        Inl e \<Rightarrow> Inl e
      | Inr cluster \<Rightarrow>
          (case make_clusters rt questions score d rest of
             Inl e \<Rightarrow> Inl e
           | Inr clusters \<Rightarrow> Inr (cluster # clusters)))"

definition find_clusters_deterministic ::
  "runtime \<Rightarrow> question list \<Rightarrow> ndarray \<Rightarrow> int \<Rightarrow> error + harmony_cluster list" where
  "find_clusters_deterministic rt questions item_to_item_similarity_matrix num_clusters =
     (let (g, score) = merge item_to_item_similarity_matrix num_clusters;
          d = question_idx_to_group_idx rt g;
          all_groups = sort (remdups (map snd d))
      in make_clusters rt questions score d (enumerate 0 all_groups))"

section \<open>The runtime of the reference implementation\<close>

text \<open>
  CPython keeps a \<^verbatim>\<open>set\<close> in an open-addressing hash table and iterates over the table
  slot by slot; a small non-negative integer is its own hash. The table starts with 8
  slots; an element goes to the slot \<open>hash mod size\<close>, or, when that slot is taken, to
  the first free slot of the probe sequence (up to 9 following slots when they exist,
  then a jump to \<open>5 i + 1 + perturb\<close>). When the table is three fifths full after an
  insertion it is rebuilt, its elements being put in slot order into a table of the
  least power of two above four times their number (\<^verbatim>\<open>Objects/setobject.c\<close>).
\<close>

fun probe_run :: "nat option list \<Rightarrow> nat \<Rightarrow> nat \<Rightarrow> nat option" where
  "probe_run table i 0 = (if table ! i = None then Some i else None)"
| "probe_run table i (Suc probes) =
     (if table ! i = None then Some i else probe_run table (Suc i) probes)"

fun find_slot :: "nat \<Rightarrow> nat option list \<Rightarrow> nat \<Rightarrow> nat \<Rightarrow> nat option" where
  "find_slot 0 table i perturb = None"
| "find_slot (Suc fuel) table i perturb =
     (case probe_run table i (if i + 9 \<le> length table - 1 then 9 else 0) of
        Some j \<Rightarrow> Some j
      | None \<Rightarrow>
          find_slot fuel table ((i * 5 + 1 + perturb div 32) mod length table) (perturb div 32))"

text \<open>
  The probe sequence visits every slot once \<open>perturb\<close> has reached zero, so the fuel
  given here is never used up on a table with a free slot; were it, the element would
  be dropped.
\<close>

definition set_insert_clean :: "nat option list \<Rightarrow> nat \<Rightarrow> nat option list" where
  "set_insert_clean table key =
     (case find_slot (length table + 64) table (key mod length table) key of
        Some i \<Rightarrow> table[i := Some key]
      | None \<Rightarrow> table)"

fun table_size :: "nat \<Rightarrow> nat \<Rightarrow> nat \<Rightarrow> nat" where
  "table_size 0 newsize minused = newsize"
| "table_size (Suc fuel) newsize minused =
     (if newsize \<le> minused then table_size fuel (2 * newsize) minused else newsize)"

definition set_table_resize :: "nat option list \<Rightarrow> nat \<Rightarrow> nat option list" where
  "set_table_resize table minused =
     foldl set_insert_clean (replicate (table_size (Suc minused) 8 minused) None)
       (concat (map (\<lambda>e. case e of None \<Rightarrow> [] | Some key \<Rightarrow> [key]) table))"

definition set_add :: "nat option list \<Rightarrow> nat \<Rightarrow> nat option list" where
  "set_add table key =
     (if Some key \<in> set table then table
      else
        let table' = set_insert_clean table key;
            used = length (filter (\<lambda>e. e \<noteq> None) table')
        in if used * 5 < (length table' - 1) * 3 then table'
           else set_table_resize table' (if 50000 < used then used * 2 else used * 4))"

definition cpython_set_iter :: "nat list \<Rightarrow> nat list" where
  "cpython_set_iter added =
     concat (map (\<lambda>e. case e of None \<Rightarrow> [] | Some key \<Rightarrow> [key])
                 (foldl set_add (replicate 8 None) added))"

section \<open>Connectivity\<close>

text \<open>
  The notions the properties are stated with: the symmetric edge relation of a graph,
  the set of nodes connected to a node, and sets of nodes closed under connection.
\<close>

definition edge_rel :: "graph \<Rightarrow> (nat \<times> nat) set" where
  "edge_rel g = set (edges g) \<union> (set (edges g))\<inverse>"

definition reach :: "graph \<Rightarrow> nat \<Rightarrow> nat set" where
  "reach g v = (edge_rel g)\<^sup>* `` {v}"

definition reach_closed :: "graph \<Rightarrow> nat set \<Rightarrow> bool" where
  "reach_closed g S \<longleftrightarrow> (\<forall>u\<in>S. reach g u \<subseteq> S)"

definition graph_ok :: "graph \<Rightarrow> bool" where
  "graph_ok g \<longleftrightarrow> distinct (nodes g) \<and> edge_rel g \<subseteq> set (nodes g) \<times> set (nodes g)"

definition in_nodes :: "graph \<Rightarrow> ((nat \<times> nat) \<times> real) list \<Rightarrow> bool" where
  "in_nodes g es \<longleftrightarrow> (\<forall>((y, x), s)\<in>set es. y \<in> set (nodes g) \<and> x \<in> set (nodes g))"

definition is_argsort :: "real list \<Rightarrow> nat list \<Rightarrow> bool" where
  "is_argsort v idxs \<longleftrightarrow> mset idxs = mset [0..<length v] \<and> sorted (map (\<lambda>i. v ! i) idxs)"

definition provider_ok :: "runtime \<Rightarrow> bool" where
  "provider_ok rt \<longleftrightarrow>
     (\<forall>texts. shape0 (encode rt texts) = length texts) \<and> (\<forall>v. is_argsort v (argsort rt v))"

definition set_iter_ok :: "runtime \<Rightarrow> graph \<Rightarrow> bool" where
  "set_iter_ok rt g \<longleftrightarrow> (\<forall>c\<in>set (connected_components g). mset (set_iter rt c) = mset c)"

definition tagged :: "runtime \<Rightarrow> nat \<Rightarrow> nat list list \<Rightarrow> (nat \<times> nat) list" where
  "tagged rt group_idx cs =
     concat (map (\<lambda>(j, c). map (\<lambda>idx. (idx, j)) (set_iter rt c)) (enumerate group_idx cs))"

definition group_members :: "(nat \<times> nat) list \<Rightarrow> nat \<Rightarrow> nat list" where
  "group_members d group_idx = map fst (filter (\<lambda>(question_idx, g). g = group_idx) d)"

text \<open>
  A valid input: the similarity matrix is square, with one row and one column for every
  question.
\<close>

definition valid_input :: "question list \<Rightarrow> ndarray \<Rightarrow> bool" where
  "valid_input questions m \<longleftrightarrow> shape0 m = length questions \<and> shape1 m = length questions"

text \<open>
  An instance of the runtime to run the model on: CPython's sets, a stable
  \<^verbatim>\<open>argsort\<close>, and an embedding of a text by its length.
\<close>

definition stable_argsort :: "real list \<Rightarrow> nat list" where
  "stable_argsort v = sort_key (\<lambda>i. v ! i) [0..<length v]"

definition length_encoder :: "string list \<Rightarrow> ndarray" where
  "length_encoder texts =
     \<lparr>shape0 = length texts, shape1 = 2,
      entry = (\<lambda>i j. if j = 0 then real (length (texts ! i)) else 1)\<rparr>"

definition reference_runtime :: runtime where
  "reference_runtime =
     \<lparr>encode = length_encoder, argsort = stable_argsort, set_iter = cpython_set_iter\<rparr>"

text \<open>The four items and a similarity matrix of the scenario of the specification.\<close>

definition example_questions :: "question list" where
  "example_questions = map (\<lambda>t. \<lparr>question_text = t\<rparr>) [''A'', ''B'', ''C'', ''D'']"

definition example_matrix :: ndarray where
  "example_matrix = of_rows
     [[1, 9/10, 1/10, 1/10],
      [9/10, 1, 1/10, 1/10],
      [1/10, 1/10, 1, 8/10],
      [1/10, 1/10, 8/10, 1]]"

text \<open>
  Nine items of which only the second and the last are similar: asked for eight
  clusters, the function merges exactly this pair.
\<close>

definition tie_questions :: "question list" where
  "tie_questions = map (\<lambda>t. \<lparr>question_text = t\<rparr>)
     [''Q0'', ''Q1'', ''Q2'', ''Q3'', ''Q4'', ''Q5'', ''Q6'', ''Q7'', ''Q8'']"

definition tie_matrix :: ndarray where
  "tie_matrix =
     \<lparr>shape0 = 9, shape1 = 9,
      entry = (\<lambda>y x. if y = x then 1
                     else if (y = 1 \<and> x = 8) \<or> (y = 8 \<and> x = 1) then 9/10 else 0)\<rparr>"

text \<open>A similarity matrix for two items only.\<close>

definition small_matrix :: ndarray where
  "small_matrix = of_rows [[1, 1/2], [1/2, 1]]"

text \<open>
  The edges that the merge loop accepts, in the order it accepts them: the loop of
  \<^const>\<open>merge_loop\<close>, recording each pair for which it reaches \<^verbatim>\<open>graph.add_edge\<close>.
\<close>

fun accepted :: "int \<Rightarrow> ((nat \<times> nat) \<times> real) list \<Rightarrow> graph \<Rightarrow> ((nat \<times> nat) \<times> real) list" where
  "accepted num_clusters [] g = []"
| "accepted num_clusters (((y, x), sim) # rest) g =
     (if x \<noteq> y then
        (if int (number_connected_components g) \<le> num_clusters then []
         else ((y, x), sim) # accepted num_clusters rest (add_edge g y x))
      else accepted num_clusters rest g)"

definition accepted_edges :: "ndarray \<Rightarrow> int \<Rightarrow> ((nat \<times> nat) \<times> real) list" where
  "accepted_edges m num_clusters =
     accepted num_clusters (ranked_edges m) (add_nodes_from empty_graph [0..<shape0 m])"

text \<open>What an accepted edge adds to the score of the item \<open>v\<close>.\<close>

definition gain :: "nat \<Rightarrow> (nat \<times> nat) \<times> real \<Rightarrow> real" where
  "gain v e = (if v = fst (fst e) \<or> v = snd (fst e) then snd e else 0)"

text \<open>What an accepted edge between \<open>i\<close> and \<open>j\<close>, in either direction, adds to their scores.\<close>

definition pair_gain :: "nat \<Rightarrow> nat \<Rightarrow> (nat \<times> nat) \<times> real \<Rightarrow> real" where
  "pair_gain i j e = (if fst e = (i, j) \<or> fst e = (j, i) then snd e else 0)"

text \<open>
  The score of an item when every off-diagonal pair is accepted: for every other item,
  the weights of the two directed pairs between them.
\<close>

definition full_score :: "ndarray \<Rightarrow> nat \<Rightarrow> real" where
  "full_score m v =
     (\<Sum>j\<leftarrow>[0..<shape0 m]. if j \<noteq> v then \<bar>entry m v j\<bar> + \<bar>entry m j v\<bar> else 0)"

text \<open>
  The ranking key in the words of the specification: "compute the arithmetic mean vector
  across the cluster (the cluster embedding); compute cosine similarity of every member's
  embedding to the cluster embedding". The mean is the sum of the embedding vectors
  divided by their number; the cosine similarity of two vectors is their dot product
  divided by the product of their Euclidean norms (zero when a norm is zero, as a
  quotient by zero is in HOL and as the library's normalisation makes it).
\<close>

definition dot :: "real list \<Rightarrow> real list \<Rightarrow> real" where
  "dot u v = (\<Sum>(a, b)\<leftarrow>zip u v. a * b)"

definition euclidean_norm :: "real list \<Rightarrow> real" where
  "euclidean_norm v = sqrt (dot v v)"

definition spec_cosine :: "real list \<Rightarrow> real list \<Rightarrow> real" where
  "spec_cosine u v = dot u v / (euclidean_norm u * euclidean_norm v)"

definition vector_sum :: "nat \<Rightarrow> real list list \<Rightarrow> real list" where
  "vector_sum d vs = foldr (\<lambda>v acc. map2 (+) v acc) vs (replicate d 0)"

definition cluster_embedding :: "ndarray \<Rightarrow> real list" where
  "cluster_embedding embeddings =
     map (\<lambda>c. c / real (shape0 embeddings))
       (vector_sum (shape1 embeddings) (map (row embeddings) [0..<shape0 embeddings]))"

definition similarity_to_mean :: "ndarray \<Rightarrow> nat \<Rightarrow> real" where
  "similarity_to_mean embeddings i =
     spec_cosine (cluster_embedding embeddings) (row embeddings i)"

text \<open>Two questions whose texts differ in length, so that their similarities differ.\<close>

definition short_long_questions :: "question list" where
  "short_long_questions = map (\<lambda>t. \<lparr>question_text = t\<rparr>) [''ab'', ''abcd'']"

section \<open>The breadth-first search computes the connected component\<close>

lemma set_adj: "set (adj g v) = edge_rel g `` {v}"
  by (force simp: adj_def edge_rel_def split: if_splits)

lemma sym_edge_rel: "sym (edge_rel g)"
  by (auto simp: edge_rel_def sym_def)

lemma visit_neighbours_eq:
  "\<exists>new. visit_neighbours ws (s, n) = (s @ new, n @ new)
         \<and> set new = set ws - set s \<and> distinct new"
proof (induction ws arbitrary: s n)
  case Nil
  show ?case by simp
next
  case (Cons w ws)
  show ?case
  proof (cases "w \<in> set s")
    case True
    with Cons.IH [of s n] show ?thesis by auto
  next
    case False
    from Cons.IH [of "s @ [w]" "n @ [w]"] obtain new where
      "visit_neighbours ws (s @ [w], n @ [w]) = ((s @ [w]) @ new, (n @ [w]) @ new)"
      "set new = set ws - set (s @ [w])" "distinct new"
      by blast
    with False show ?thesis
      by (intro exI [of _ "w # new"]) auto
  qed
qed

lemma scan_level_eq:
  "\<exists>new. scan_level g vs (s, n) = (s @ new, n @ new)
         \<and> set new = (\<Union>v\<in>set vs. set (adj g v)) - set s \<and> distinct new"
proof (induction vs arbitrary: s n)
  case Nil
  show ?case by simp
next
  case (Cons v vs)
  from visit_neighbours_eq [of "adj g v" s n] obtain new1 where n1:
    "visit_neighbours (adj g v) (s, n) = (s @ new1, n @ new1)"
    "set new1 = set (adj g v) - set s" "distinct new1"
    by blast
  from Cons.IH [of "s @ new1" "n @ new1"] obtain new2 where n2:
    "scan_level g vs (s @ new1, n @ new1) = ((s @ new1) @ new2, (n @ new1) @ new2)"
    "set new2 = (\<Union>v\<in>set vs. set (adj g v)) - set (s @ new1)" "distinct new2"
    by blast
  from n1 n2 show ?case
    by (intro exI [of _ "new1 @ new2"]) auto
qed

lemma plain_bfs_loop_correct:
  "set level \<subseteq> set seen \<Longrightarrow> distinct seen \<Longrightarrow> src \<in> set seen \<Longrightarrow> set seen \<subseteq> reach g src \<Longrightarrow>
   (\<forall>u \<in> set seen - set level. edge_rel g `` {u} \<subseteq> set seen) \<Longrightarrow>
   set (plain_bfs_loop g seen level) = reach g src \<and> distinct (plain_bfs_loop g seen level)"
proof (induction g seen level rule: plain_bfs_loop.induct)
  case (1 g seen level)
  show ?case
  proof (cases "level = []")
    case True
    have "reach g src \<subseteq> set seen"
    proof
      fix u assume "u \<in> reach g src"
      then have "(src, u) \<in> (edge_rel g)\<^sup>*" by (simp add: reach_def)
      then show "u \<in> set seen"
      proof (induction rule: rtrancl_induct)
        case base
        from "1.prems"(3) show ?case .
      next
        case (step y z)
        with "1.prems"(5) True show ?case by auto
      qed
    qed
    with "1.prems" True show ?thesis by (simp add: plain_bfs_loop.simps [of g seen "[]"])
  next
    case False
    from scan_level_eq [of g level seen "[]"] obtain new where new:
      "scan_level g level (seen, []) = (seen @ new, new)"
      "set new = (\<Union>v\<in>set level. set (adj g v)) - set seen" "distinct new"
      by auto
    have a: "set new \<subseteq> set (seen @ new)" by simp
    have b: "distinct (seen @ new)" using new "1.prems"(2) by auto
    have c: "src \<in> set (seen @ new)" using "1.prems"(3) by simp
    have d: "set (seen @ new) \<subseteq> reach g src"
    proof -
      have "w \<in> reach g src" if "w \<in> set new" for w
      proof -
        from that new(2) obtain v where v: "v \<in> set level" "w \<in> set (adj g v)" by auto
        then have "(v, w) \<in> edge_rel g" by (simp add: set_adj)
        moreover have "(src, v) \<in> (edge_rel g)\<^sup>*"
          using v(1) "1.prems"(1,4) by (auto simp: reach_def)
        ultimately show ?thesis by (auto simp: reach_def)
      qed
      with "1.prems"(4) show ?thesis by auto
    qed
    have e: "\<forall>u \<in> set (seen @ new) - set new. edge_rel g `` {u} \<subseteq> set (seen @ new)"
    proof
      fix u assume u: "u \<in> set (seen @ new) - set new"
      then have us: "u \<in> set seen" by auto
      show "edge_rel g `` {u} \<subseteq> set (seen @ new)"
      proof (cases "u \<in> set level")
        case True
        then have "set (adj g u) \<subseteq> set seen \<union> set new" using new(2) by auto
        then show ?thesis by (simp add: set_adj)
      next
        case False
        with us "1.prems"(5) show ?thesis by auto
      qed
    qed
    from "1.IH" [OF False] new(1) a b c d e
    have "set (plain_bfs_loop g (seen @ new) new) = reach g src
          \<and> distinct (plain_bfs_loop g (seen @ new) new)"
      by simp
    with False new(1) show ?thesis
      by (simp add: plain_bfs_loop.simps [of g seen level])
  qed
qed

lemma plain_bfs_correct:
  "set (plain_bfs g v) = reach g v" "distinct (plain_bfs g v)"
  using plain_bfs_loop_correct [of "[v]" "[v]" v g]
  by (auto simp: plain_bfs_def reach_def)

lemma reach_refl: "v \<in> reach g v"
  by (simp add: reach_def)

lemma reach_sym: "u \<in> reach g v \<Longrightarrow> v \<in> reach g u"
  using sym_rtrancl [OF sym_edge_rel [of g]] by (auto simp: reach_def sym_def)

lemma reach_trans: "u \<in> reach g v \<Longrightarrow> w \<in> reach g u \<Longrightarrow> w \<in> reach g v"
  by (auto simp: reach_def)

lemma reach_eq: "u \<in> reach g v \<Longrightarrow> reach g u = reach g v"
  using reach_sym reach_trans by blast

lemma reach_eq_iff: "reach g u = reach g v \<longleftrightarrow> u \<in> reach g v"
  using reach_eq reach_refl by blast

lemma reach_disjoint: "u \<notin> reach g v \<Longrightarrow> reach g u \<inter> reach g v = {}"
  using reach_sym reach_trans by blast

lemma reach_closed_empty: "reach_closed g {}"
  by (simp add: reach_closed_def)

lemma reach_closed_Un_reach: "reach_closed g S \<Longrightarrow> reach_closed g (S \<union> reach g v)"
  unfolding reach_closed_def using reach_trans by blast

lemma reach_closed_disjoint: "reach_closed g S \<Longrightarrow> v \<notin> S \<Longrightarrow> reach g v \<inter> S = {}"
  unfolding reach_closed_def using reach_sym by blast

lemma components_from_roots:
  "c \<in> set (components_from g seen vs) \<Longrightarrow> \<exists>v\<in>set vs. c = plain_bfs g v"
  by (induction vs arbitrary: seen) (auto split: if_splits)

lemma components_from_set:
  "reach_closed g (set seen) \<Longrightarrow>
   set (concat (components_from g seen vs)) = (\<Union>v\<in>set vs. reach g v) - set seen"
proof (induction vs arbitrary: seen)
  case Nil
  show ?case by simp
next
  case (Cons v vs)
  show ?case
  proof (cases "v \<in> set seen")
    case True
    then have "reach g v \<subseteq> set seen" using Cons.prems by (auto simp: reach_closed_def)
    with True Cons show ?thesis by auto
  next
    case False
    have cl: "reach_closed g (set (seen @ plain_bfs g v))"
      using reach_closed_Un_reach [OF Cons.prems, of v] by (simp add: plain_bfs_correct)
    have dj: "reach g v \<inter> set seen = {}" by (rule reach_closed_disjoint [OF Cons.prems False])
    from False Cons.IH [OF cl] dj show ?thesis
      by (auto simp: plain_bfs_correct)
  qed
qed

lemma components_from_distinct:
  "reach_closed g (set seen) \<Longrightarrow> distinct (concat (components_from g seen vs))"
proof (induction vs arbitrary: seen)
  case Nil
  show ?case by simp
next
  case (Cons v vs)
  show ?case
  proof (cases "v \<in> set seen")
    case True
    with Cons show ?thesis by simp
  next
    case False
    have cl: "reach_closed g (set (seen @ plain_bfs g v))"
      using reach_closed_Un_reach [OF Cons.prems, of v] by (simp add: plain_bfs_correct)
    from False Cons.IH [OF cl] components_from_set [OF cl, of vs] show ?thesis
      by (auto simp: plain_bfs_correct)
  qed
qed

lemma components_from_length:
  "reach_closed g (set seen) \<Longrightarrow>
   length (components_from g seen vs) = card (reach g ` (set vs - set seen))"
proof (induction vs arbitrary: seen)
  case Nil
  show ?case by simp
next
  case (Cons v vs)
  show ?case
  proof (cases "v \<in> set seen")
    case True
    then have "set (v # vs) - set seen = set vs - set seen" by auto
    with True Cons show ?thesis by simp
  next
    case False
    have cl: "reach_closed g (set (seen @ plain_bfs g v))"
      using reach_closed_Un_reach [OF Cons.prems, of v] by (simp add: plain_bfs_correct)
    have 1: "reach g ` (set (v # vs) - set seen)
             = insert (reach g v) (reach g ` (set vs - set (seen @ plain_bfs g v)))"
      (is "?L = insert _ ?R")
    proof
      show "?L \<subseteq> insert (reach g v) ?R"
      proof
        fix X assume "X \<in> ?L"
        then obtain w where w: "w \<in> set (v # vs)" "w \<notin> set seen" "X = reach g w" by auto
        show "X \<in> insert (reach g v) ?R"
        proof (cases "w \<in> reach g v")
          case True
          then show ?thesis using w(3) reach_eq by auto
        next
          case False
          then have "w \<noteq> v" using reach_refl by auto
          with w False show ?thesis by (auto simp: plain_bfs_correct)
        qed
      qed
    next
      show "insert (reach g v) ?R \<subseteq> ?L" using False by auto
    qed
    have 2: "reach g v \<notin> ?R"
    proof
      assume "reach g v \<in> ?R"
      then obtain w where "w \<notin> reach g v" "reach g v = reach g w"
        by (auto simp: plain_bfs_correct)
      then show False using reach_refl by auto
    qed
    have "finite ?R" by simp
    with 1 2 have "card ?L = Suc (card ?R)" by simp
    with False Cons.IH [OF cl] show ?thesis by simp
  qed
qed

lemma number_connected_components_card:
  "number_connected_components g = card (reach g ` set (nodes g))"
  using components_from_length [of g "[]" "nodes g"]
  by (simp add: number_connected_components_def connected_components_def reach_closed_empty)

lemma nodes_add_node: "set (nodes (add_node g v)) = insert v (set (nodes g))"
  by (auto simp: add_node_def)

lemma edges_add_node: "edges (add_node g v) = edges g"
  by (simp add: add_node_def)

lemma add_node_known: "v \<in> set (nodes g) \<Longrightarrow> add_node g v = g"
  by (simp add: add_node_def)

lemma nodes_add_edge_known:
  "u \<in> set (nodes g) \<Longrightarrow> v \<in> set (nodes g) \<Longrightarrow> nodes (add_edge g u v) = nodes g"
  by (simp add: add_edge_def add_node_known Let_def)

lemma edge_rel_add_edge:
  "edge_rel (add_edge g u v) = insert (u, v) (insert (v, u) (edge_rel g))"
  by (auto simp: add_edge_def edge_rel_def edges_add_node Let_def)

lemma reach_mono: "edge_rel g \<subseteq> edge_rel g' \<Longrightarrow> reach g a \<subseteq> reach g' a"
  unfolding reach_def using rtrancl_mono [of "edge_rel g" "edge_rel g'"] by blast

lemma reach_add_edge:
  "reach (add_edge g u v) a =
     (if a \<in> reach g u \<union> reach g v then reach g u \<union> reach g v else reach g a)"
proof -
  let ?g' = "add_edge g u v"
  let ?U = "reach g u \<union> reach g v"
  let ?S = "if a \<in> ?U then ?U else reach g a"
  have sub: "reach g b \<subseteq> reach ?g' b" for b
    by (rule reach_mono) (auto simp: edge_rel_add_edge)
  have uv: "v \<in> reach ?g' u"
    by (auto simp: reach_def edge_rel_add_edge)
  have "reach ?g' a \<subseteq> ?S"
  proof
    fix b assume "b \<in> reach ?g' a"
    then have "(a, b) \<in> (edge_rel ?g')\<^sup>*" by (simp add: reach_def)
    then show "b \<in> ?S"
    proof (induction rule: rtrancl_induct)
      case base
      show ?case using reach_refl by simp
    next
      case (step y z)
      from step(2) consider "(y, z) \<in> edge_rel g" | "y = u" "z = v" | "y = v" "z = u"
        by (auto simp: edge_rel_add_edge)
      then show ?case
      proof cases
        case 1
        then have zy: "z \<in> reach g y" by (auto simp: reach_def)
        show ?thesis
        proof (cases "a \<in> ?U")
          case True
          with step(3) zy show ?thesis using reach_trans by auto
        next
          case False
          with step(3) zy show ?thesis using reach_trans by auto
        qed
      next
        case 2
        show ?thesis
        proof (cases "a \<in> ?U")
          case True
          with 2 show ?thesis using reach_refl by auto
        next
          case False
          with step(3) 2 have "u \<in> reach g a" by simp
          then have "a \<in> reach g u" by (rule reach_sym)
          with False show ?thesis by simp
        qed
      next
        case 3
        show ?thesis
        proof (cases "a \<in> ?U")
          case True
          with 3 show ?thesis using reach_refl by auto
        next
          case False
          with step(3) 3 have "v \<in> reach g a" by simp
          then have "a \<in> reach g v" by (rule reach_sym)
          with False show ?thesis by simp
        qed
      qed
    qed
  qed
  moreover have "?S \<subseteq> reach ?g' a"
  proof (cases "a \<in> ?U")
    case False
    then show ?thesis using sub by simp
  next
    case True
    have "u \<in> reach ?g' a"
    proof -
      from True consider "a \<in> reach g u" | "a \<in> reach g v" by auto
      then show ?thesis
      proof cases
        case 1
        then show ?thesis using sub reach_sym by blast
      next
        case 2
        then have "a \<in> reach ?g' v" using sub by blast
        then have "a \<in> reach ?g' u" using uv reach_trans by blast
        then show ?thesis by (rule reach_sym)
      qed
    qed
    then have eq: "reach ?g' a = reach ?g' u" using reach_eq reach_sym by blast
    have "reach g u \<subseteq> reach ?g' u" by (rule sub)
    moreover have "reach g v \<subseteq> reach ?g' u"
      using sub [of v] reach_eq [OF uv] by simp
    ultimately show ?thesis using True eq by simp
  qed
  ultimately show ?thesis by blast
qed

lemma card_reach_add_edge:
  assumes "u \<in> N" and "finite N"
  shows "card (reach g ` N) \<le> Suc (card (reach (add_edge g u v) ` N))"
proof -
  let ?g' = "add_edge g u v"
  let ?U = "reach g u \<union> reach g v"
  let ?Q' = "reach ?g' ` N"
  have "reach ?g' u = ?U"
    using reach_refl [of u g] by (simp add: reach_add_edge)
  then have U: "?U \<in> ?Q'"
    using assms(1) by (metis imageI)
  have "reach g ` N \<subseteq> insert (reach g u) (insert (reach g v) (?Q' - {?U}))"
  proof
    fix X assume "X \<in> reach g ` N"
    then obtain a where a: "a \<in> N" "X = reach g a" by auto
    show "X \<in> insert (reach g u) (insert (reach g v) (?Q' - {?U}))"
    proof (cases "a \<in> ?U")
      case True
      then consider "a \<in> reach g u" | "a \<in> reach g v" by blast
      then show ?thesis
      proof cases
        case 1
        then have "X = reach g u" using a(2) by (simp add: reach_eq)
        then show ?thesis by simp
      next
        case 2
        then have "X = reach g v" using a(2) by (simp add: reach_eq)
        then show ?thesis by simp
      qed
    next
      case False
      then have 1: "reach ?g' a = X" using a(2) by (simp add: reach_add_edge)
      have "a \<in> X" using a(2) reach_refl by simp
      with False have 2: "X \<noteq> ?U" by blast
      from 1 a(1) have "X \<in> ?Q'" by (metis imageI)
      with 2 show ?thesis by simp
    qed
  qed
  moreover have fin: "finite (insert (reach g u) (insert (reach g v) (?Q' - {?U})))"
    using assms(2) by simp
  ultimately have "card (reach g ` N)
             \<le> card (insert (reach g u) (insert (reach g v) (?Q' - {?U})))"
    by (rule card_mono [rotated])
  also have "\<dots> \<le> Suc (Suc (card (?Q' - {?U})))"
    using assms(2) by (simp add: card_insert_if)
  also have "\<dots> = Suc (card ?Q')"
    using card_Suc_Diff1 [OF _ U] assms(2) by simp
  finally show ?thesis .
qed

section \<open>Well-formed graphs and the number of components\<close>

lemma graph_ok_add_node: "graph_ok g \<Longrightarrow> graph_ok (add_node g v)"
  by (auto simp: graph_ok_def add_node_def edge_rel_def)

lemma graph_ok_add_edge: "graph_ok g \<Longrightarrow> graph_ok (add_edge g u v)"
proof -
  assume ok: "graph_ok g"
  let ?g1 = "add_node (add_node g u) v"
  have 1: "graph_ok ?g1" using ok by (intro graph_ok_add_node)
  have 2: "u \<in> set (nodes ?g1)" "v \<in> set (nodes ?g1)" by (simp_all add: nodes_add_node)
  have 3: "nodes (add_edge g u v) = nodes ?g1" by (simp add: add_edge_def Let_def)
  have 4: "edge_rel ?g1 = edge_rel g" by (simp add: edge_rel_def edges_add_node)
  from 1 2 show ?thesis
    unfolding graph_ok_def 3 edge_rel_add_edge 4 [symmetric] by auto
qed

lemma foldl_add_node:
  "distinct vs \<Longrightarrow> set vs \<inter> set (nodes g) = {} \<Longrightarrow>
   foldl add_node g vs = g\<lparr>nodes := nodes g @ vs\<rparr>"
proof (induction vs arbitrary: g)
  case Nil
  show ?case by simp
next
  case (Cons v vs)
  have "add_node g v = g\<lparr>nodes := nodes g @ [v]\<rparr>" using Cons.prems by (simp add: add_node_def)
  moreover have "foldl add_node (g\<lparr>nodes := nodes g @ [v]\<rparr>) vs
                 = (g\<lparr>nodes := nodes g @ [v]\<rparr>)\<lparr>nodes := nodes (g\<lparr>nodes := nodes g @ [v]\<rparr>) @ vs\<rparr>"
    using Cons.prems by (intro Cons.IH) auto
  ultimately show ?case by simp
qed

lemma initial_graph:
  "add_nodes_from empty_graph [0..<n] = \<lparr>nodes = [0..<n], edges = []\<rparr>"
  by (simp add: add_nodes_from_def foldl_add_node empty_graph_def)

lemma reach_subset_nodes:
  assumes "graph_ok g" "v \<in> set (nodes g)"
  shows "reach g v \<subseteq> set (nodes g)"
proof
  fix u assume "u \<in> reach g v"
  then have "(v, u) \<in> (edge_rel g)\<^sup>*" by (simp add: reach_def)
  then show "u \<in> set (nodes g)"
    using assms by (induction rule: rtrancl_induct) (auto simp: graph_ok_def)
qed

lemma connected_components_set:
  assumes "graph_ok g"
  shows "set (concat (connected_components g)) = set (nodes g)"
proof -
  have "set (concat (connected_components g)) = (\<Union>v\<in>set (nodes g). reach g v)"
    using components_from_set [of g "[]" "nodes g"]
    by (simp add: connected_components_def reach_closed_empty)
  also have "\<dots> = set (nodes g)"
  proof
    show "(\<Union>v\<in>set (nodes g). reach g v) \<subseteq> set (nodes g)"
      using reach_subset_nodes [OF assms] by blast
    show "set (nodes g) \<subseteq> (\<Union>v\<in>set (nodes g). reach g v)"
      using reach_refl by blast
  qed
  finally show ?thesis .
qed

lemma connected_components_distinct: "distinct (concat (connected_components g))"
  using components_from_distinct [of g "[]" "nodes g"]
  by (simp add: connected_components_def reach_closed_empty)

lemma connected_components_mset:
  "graph_ok g \<Longrightarrow> mset (concat (connected_components g)) = mset (nodes g)"
  using connected_components_set [of g] connected_components_distinct [of g]
  by (simp add: graph_ok_def set_eq_iff_mset_eq_distinct [symmetric])

lemma connected_components_nonempty: "c \<in> set (connected_components g) \<Longrightarrow> c \<noteq> []"
proof -
  assume "c \<in> set (connected_components g)"
  then obtain v where "c = plain_bfs g v"
    using components_from_roots [of c g "[]" "nodes g"] by (auto simp: connected_components_def)
  then have "v \<in> set c" using plain_bfs_correct(1) [of g v] reach_refl by simp
  then show ?thesis by auto
qed

lemma number_connected_components_le:
  "number_connected_components g \<le> card (set (nodes g))"
  by (simp add: number_connected_components_card card_image_le)

lemma number_connected_components_pos:
  "nodes g \<noteq> [] \<Longrightarrow> 0 < number_connected_components g"
  by (simp add: number_connected_components_card card_gt_0_iff)

lemma number_connected_components_edgeless:
  assumes "edges g = []"
  shows "number_connected_components g = card (set (nodes g))"
proof -
  have "reach g v = {v}" for v using assms by (simp add: reach_def edge_rel_def)
  then have "inj_on (reach g) (set (nodes g))" by (simp add: inj_on_def)
  then show ?thesis by (simp add: number_connected_components_card card_image)
qed

lemma number_connected_components_add_edge:
  assumes "u \<in> set (nodes g)" "v \<in> set (nodes g)"
  shows "number_connected_components g \<le> Suc (number_connected_components (add_edge g u v))"
  using card_reach_add_edge [of u "set (nodes g)" g v] assms
  by (simp add: number_connected_components_card nodes_add_edge_known)

lemma number_connected_components_complete:
  assumes "nodes g \<noteq> []"
    and "\<And>u v. u \<in> set (nodes g) \<Longrightarrow> v \<in> set (nodes g) \<Longrightarrow> u \<noteq> v \<Longrightarrow> (u, v) \<in> edge_rel g"
  shows "number_connected_components g = 1"
proof -
  obtain a where a: "a \<in> set (nodes g)" using assms(1) by (cases "nodes g") auto
  have eq: "reach g v = reach g a" if "v \<in> set (nodes g)" for v
  proof (cases "v = a")
    case True then show ?thesis by simp
  next
    case False
    then have "(a, v) \<in> edge_rel g" using assms(2) [OF a that] by simp
    then have "v \<in> reach g a" by (simp add: reach_def r_into_rtrancl)
    then show ?thesis by (rule reach_eq)
  qed
  have "reach g ` set (nodes g) = {reach g a}"
  proof
    show "reach g ` set (nodes g) \<subseteq> {reach g a}" using eq by blast
    show "{reach g a} \<subseteq> reach g ` set (nodes g)" using a by blast
  qed
  then show ?thesis by (simp add: number_connected_components_card)
qed

section \<open>The merge loop\<close>

lemma in_nodes_Cons:
  "in_nodes g (((y, x), s) # es) \<longleftrightarrow> y \<in> set (nodes g) \<and> x \<in> set (nodes g) \<and> in_nodes g es"
  by (simp add: in_nodes_def)

lemma in_nodes_add_edge:
  "in_nodes g (((y, x), s) # es) \<Longrightarrow> in_nodes (add_edge g y x) es"
  by (simp add: in_nodes_def nodes_add_edge_known)

lemma merge_loop_stop:
  "int (number_connected_components g) \<le> k \<Longrightarrow> merge_loop k es (g, sc) = (g, sc)"
proof (induction es)
  case Nil
  show ?case by simp
next
  case (Cons e es)
  obtain y x s where e: "e = ((y, x), s)" by (metis surj_pair)
  from Cons show ?case by (simp add: e)
qed

lemma merge_loop_graph_ok:
  "graph_ok g \<Longrightarrow> graph_ok (fst (merge_loop k es (g, sc)))"
proof (induction es arbitrary: g sc)
  case Nil
  then show ?case by simp
next
  case (Cons e es)
  obtain y x s where e: "e = ((y, x), s)" by (metis surj_pair)
  from Cons.prems Cons.IH [of g sc] Cons.IH [OF graph_ok_add_edge [OF Cons.prems, of y x]]
  show ?case by (simp add: e Let_def)
qed

lemma merge_loop_nodes:
  "in_nodes g es \<Longrightarrow> nodes (fst (merge_loop k es (g, sc))) = nodes g"
proof (induction es arbitrary: g sc)
  case Nil
  show ?case by simp
next
  case (Cons e es)
  obtain y x s where e: "e = ((y, x), s)" by (metis surj_pair)
  from Cons.prems have 1: "in_nodes g es" "in_nodes (add_edge g y x) es"
    and 2: "nodes (add_edge g y x) = nodes g"
    by (simp_all add: e in_nodes_def nodes_add_edge_known)
  from Cons.IH [OF 1(1)] Cons.IH [OF 1(2)] 2 show ?case by (simp add: e Let_def)
qed

lemma merge_loop_edge_rel_mono:
  "edge_rel g \<subseteq> edge_rel (fst (merge_loop k es (g, sc)))"
proof (induction es arbitrary: g sc)
  case Nil
  show ?case by simp
next
  case (Cons e es)
  obtain y x s where e: "e = ((y, x), s)" by (metis surj_pair)
  have "edge_rel g \<subseteq> edge_rel (add_edge g y x)" by (auto simp: edge_rel_add_edge)
  with Cons.IH [of g sc] Cons.IH [of "add_edge g y x"] show ?case
    by (simp add: e Let_def) blast
qed

lemma merge_loop_lower:
  "in_nodes g es \<Longrightarrow> k \<le> int (number_connected_components g) \<Longrightarrow>
   k \<le> int (number_connected_components (fst (merge_loop k es (g, sc))))"
proof (induction es arbitrary: g sc)
  case Nil
  then show ?case by simp
next
  case (Cons e es)
  obtain y x s where e: "e = ((y, x), s)" by (metis surj_pair)
  from Cons.prems(1) have 1: "in_nodes g es" "in_nodes (add_edge g y x) es"
    and 2: "y \<in> set (nodes g)" "x \<in> set (nodes g)"
    by (simp_all add: e in_nodes_def nodes_add_edge_known)
  show ?case
  proof (cases "x \<noteq> y \<and> \<not> int (number_connected_components g) \<le> k")
    case True
    with number_connected_components_add_edge [OF 2]
    have "k \<le> int (number_connected_components (add_edge g y x))" by linarith
    from Cons.IH [OF 1(2) this] True show ?thesis by (simp add: e Let_def)
  next
    case False
    with Cons.IH [OF 1(1) Cons.prems(2)] Cons.prems(2) show ?thesis
      by (auto simp: e)
  qed
qed

lemma merge_loop_upper:
  "int (number_connected_components (fst (merge_loop k es (g, sc)))) \<le> k
   \<or> (\<forall>((y, x), s)\<in>set es. x \<noteq> y \<longrightarrow> (y, x) \<in> edge_rel (fst (merge_loop k es (g, sc))))"
proof (induction es arbitrary: g sc)
  case Nil
  show ?case by simp
next
  case (Cons e es)
  obtain y x s where e: "e = ((y, x), s)" by (metis surj_pair)
  show ?case
  proof (cases "x \<noteq> y")
    case False
    with Cons.IH [of g sc] show ?thesis by (auto simp: e)
  next
    case xy: True
    show ?thesis
    proof (cases "int (number_connected_components g) \<le> k")
      case True
      with xy show ?thesis by (simp add: e)
    next
      case False
      define sc' where "sc' = (sc(x := sc x + s))(y := (sc(x := sc x + s)) y + s)"
      define r where "r = fst (merge_loop k es (add_edge g y x, sc'))"
      have r: "fst (merge_loop k (e # es) (g, sc)) = r"
        using xy False by (simp add: e Let_def r_def sc'_def)
      have "(y, x) \<in> edge_rel (add_edge g y x)" by (simp add: edge_rel_add_edge)
      then have yx: "(y, x) \<in> edge_rel r"
        unfolding r_def using merge_loop_edge_rel_mono by blast
      from Cons.IH [of "add_edge g y x" sc']
      have "int (number_connected_components r) \<le> k
            \<or> (\<forall>((y, x), s)\<in>set es. x \<noteq> y \<longrightarrow> (y, x) \<in> edge_rel r)"
        by (simp add: r_def)
      with yx show ?thesis
        unfolding r by (auto simp: e)
    qed
  qed
qed

lemma set_coord_to_sim:
  "set (coord_to_sim a) = {((y, x), entry a y x) | y x. y < shape0 a \<and> x < shape1 a}"
  by (auto simp: coord_to_sim_def)

lemma set_ranked_edges:
  "set (ranked_edges m) = {((y, x), \<bar>entry m y x\<bar>) | y x. y < shape0 m \<and> x < shape1 m}"
  by (simp add: ranked_edges_def set_coord_to_sim np_abs_def)

lemma number_connected_components_final:
  assumes "shape0 m = n" "shape1 m = n" "1 \<le> n"
  shows "int (number_connected_components (final_graph m k)) = max 1 (min k (int n))"
proof -
  let ?g0 = "\<lparr>nodes = [0..<n], edges = []\<rparr>"
  let ?es = "ranked_edges m"
  let ?r = "fst (merge_loop k ?es (?g0, (\<lambda>_. 0)))"
  have r: "final_graph m k = ?r"
    by (simp add: final_graph_def merge_def initial_graph assms)
  have n0: "number_connected_components ?g0 = n"
    by (simp add: number_connected_components_edgeless)
  have inn: "in_nodes ?g0 ?es"
    by (auto simp: in_nodes_def set_ranked_edges assms)
  have nodes: "nodes ?r = [0..<n]" using merge_loop_nodes [OF inn] by simp
  have pos: "1 \<le> int (number_connected_components ?r)"
    using number_connected_components_pos [of ?r] nodes assms(3) by simp
  show ?thesis
  proof (cases "int n \<le> k")
    case True
    then have "?r = ?g0" using merge_loop_stop [of ?g0 k ?es] n0 by simp
    with True n0 assms(3) show ?thesis unfolding r by simp
  next
    case False
    then have lower: "k \<le> int (number_connected_components ?r)"
      using merge_loop_lower [OF inn, of k] n0 by simp
    from merge_loop_upper [of k ?es ?g0 "\<lambda>_. 0"]
    show ?thesis
    proof
      assume "int (number_connected_components ?r) \<le> k"
      with lower pos False show ?thesis unfolding r by simp
    next
      assume all: "\<forall>((y, x), s)\<in>set ?es. x \<noteq> y \<longrightarrow> (y, x) \<in> edge_rel ?r"
      have "number_connected_components ?r = 1"
      proof (rule number_connected_components_complete)
        show "nodes ?r \<noteq> []" using nodes assms(3) by simp
      next
        fix u v assume "u \<in> set (nodes ?r)" "v \<in> set (nodes ?r)" "u \<noteq> v"
        then have "((u, v), \<bar>entry m u v\<bar>) \<in> set ?es"
          using nodes by (auto simp: set_ranked_edges assms)
        with all \<open>u \<noteq> v\<close> show "(u, v) \<in> edge_rel ?r" by fastforce
      qed
      with lower False show ?thesis unfolding r by simp
    qed
  qed
qed

section \<open>The lookup table from questions to groups\<close>

lemma tagged_Nil: "tagged rt s [] = []"
  by (simp add: tagged_def)

lemma tagged_Cons:
  "tagged rt s (c # cs) = map (\<lambda>idx. (idx, s)) (set_iter rt c) @ tagged rt (Suc s) cs"
  by (simp add: tagged_def)

lemma dict_set_fresh: "k \<notin> fst ` set d \<Longrightarrow> dict_set d k v = d @ [(k, v)]"
  by (induction d) auto

lemma foldl_dict_set:
  "distinct ks \<Longrightarrow> set ks \<inter> fst ` set d = {} \<Longrightarrow>
   foldl (\<lambda>d idx. dict_set d idx gi) d ks = d @ map (\<lambda>idx. (idx, gi)) ks"
proof (induction ks arbitrary: d)
  case Nil
  show ?case by simp
next
  case (Cons k ks)
  have 1: "dict_set d k gi = d @ [(k, gi)]" using Cons.prems by (intro dict_set_fresh) auto
  have 2: "set ks \<inter> fst ` set (d @ [(k, gi)]) = {}" using Cons.prems by auto
  from Cons.IH [OF _ 2] Cons.prems(1) 1 show ?case by simp
qed

lemma assign_groups_eq:
  "distinct (concat (map (set_iter rt) cs)) \<Longrightarrow>
   set (concat (map (set_iter rt) cs)) \<inter> fst ` set d = {} \<Longrightarrow>
   assign_groups rt cs gi d = d @ tagged rt gi cs"
proof (induction cs arbitrary: gi d)
  case Nil
  show ?case by (simp add: tagged_Nil)
next
  case (Cons c cs)
  let ?d = "d @ map (\<lambda>idx. (idx, gi)) (set_iter rt c)"
  have 1: "foldl (\<lambda>d idx. dict_set d idx gi) d (set_iter rt c) = ?d"
    using Cons.prems by (intro foldl_dict_set) auto
  have 2: "distinct (concat (map (set_iter rt) cs))" using Cons.prems(1) by simp
  have 3: "set (concat (map (set_iter rt) cs)) \<inter> fst ` set ?d = {}"
    using Cons.prems by (auto simp: image_Un image_image)
  from Cons.IH [OF 2 3, of "gi + 1"] 1 show ?case by (simp add: tagged_Cons)
qed

lemma members_tagged:
  "map fst (filter (\<lambda>(question_idx, g). g = j) (tagged rt s cs))
   = (if s \<le> j \<and> j < s + length cs then set_iter rt (cs ! (j - s)) else [])"
proof (induction cs arbitrary: s)
  case Nil
  show ?case by (auto simp: tagged_Nil)
next
  case (Cons c cs)
  have 1: "map fst (filter (\<lambda>(question_idx, g). g = j) (map (\<lambda>idx. (idx, s)) (set_iter rt c)))
           = (if j = s then set_iter rt c else [])"
    by (simp add: filter_map comp_def)
  show ?case
  proof (cases "j = s")
    case True
    with 1 Cons.IH [of "Suc s"] show ?thesis by (simp add: tagged_Cons)
  next
    case False
    then have "(j - s) = Suc (j - Suc s)" if "s \<le> j" using that by simp
    with False 1 Cons.IH [of "Suc s"] show ?thesis by (auto simp: tagged_Cons)
  qed
qed

lemma groups_tagged:
  "\<forall>c\<in>set cs. set_iter rt c \<noteq> [] \<Longrightarrow> set (map snd (tagged rt s cs)) = {s..<s + length cs}"
proof (induction cs arbitrary: s)
  case Nil
  show ?case by (simp add: tagged_Nil)
next
  case (Cons c cs)
  have "set (map snd (map (\<lambda>idx. (idx, s)) (set_iter rt c))) = {s}"
    using Cons.prems by (cases "set_iter rt c") (auto simp: comp_def)
  with Cons.IH [of "Suc s"] Cons.prems show ?case
    by (auto simp: tagged_Cons)
qed

lemma set_iter_ok_concat:
  assumes "set_iter_ok rt g"
  shows "mset (concat (map (set_iter rt) (connected_components g)))
         = mset (concat (connected_components g))"
proof -
  have "\<forall>c\<in>set cs. mset (set_iter rt c) = mset c \<Longrightarrow>
        mset (concat (map (set_iter rt) cs)) = mset (concat cs)" for cs
    by (induction cs) auto
  with assms show ?thesis by (simp add: set_iter_ok_def)
qed

lemma question_idx_to_group_idx_eq:
  assumes "set_iter_ok rt g"
  shows "question_idx_to_group_idx rt g = tagged rt 0 (connected_components g)"
proof -
  have "distinct (concat (map (set_iter rt) (connected_components g)))"
    using set_iter_ok_concat [OF assms] connected_components_distinct [of g]
    by (metis mset_eq_imp_distinct_iff)
  then show ?thesis
    by (simp add: question_idx_to_group_idx_def assign_groups_eq)
qed

lemma all_groups_eq:
  assumes "set_iter_ok rt g"
  shows "sort (remdups (map snd (question_idx_to_group_idx rt g)))
         = [0..<length (connected_components g)]"
proof -
  have "\<forall>c\<in>set (connected_components g). set_iter rt c \<noteq> []"
  proof
    fix c assume c: "c \<in> set (connected_components g)"
    then have "mset (set_iter rt c) = mset c" using assms by (simp add: set_iter_ok_def)
    moreover have "c \<noteq> []" using c by (rule connected_components_nonempty)
    ultimately show "set_iter rt c \<noteq> []" by auto
  qed
  then have "set (map snd (question_idx_to_group_idx rt g))
             = {0..<length (connected_components g)}"
    using groups_tagged [of "connected_components g" rt 0]
    by (simp add: question_idx_to_group_idx_eq [OF assms])
  then have "sorted_list_of_set (set (map snd (question_idx_to_group_idx rt g)))
             = [0..<length (connected_components g)]"
    by simp
  then show ?thesis by (simp add: sorted_list_of_set_sort_remdups [symmetric])
qed

lemma enumerate_upt: "enumerate 0 [0..<n] = map (\<lambda>i. (i, i)) [0..<n]"
  by (simp add: enumerate_eq_zip zip_same_conv_map)

section \<open>Building the clusters\<close>

lemma take_texts_Inr:
  "\<forall>i\<in>set idxs. i < length texts \<Longrightarrow> take_texts texts idxs = Inr (map (\<lambda>i. texts ! i) idxs)"
  by (induction idxs) auto

lemma set_slice_from: "set (slice_from xs s) \<subseteq> set xs"
  by (auto simp: slice_from_def Let_def dest: in_set_dropD)

lemma is_argsort_set: "is_argsort v idxs \<Longrightarrow> set idxs = {0..<length v}"
  by (metis is_argsort_def mset_eq_setD set_upt)

lemma keywords_Inr:
  assumes "provider_ok rt"
  shows "\<exists>kws. fst (generate_semantic_keywords rt cluster_items top_k) = Inr kws"
proof (cases "cluster_items = []")
  case True
  then show ?thesis by (simp add: generate_semantic_keywords_def)
next
  case False
  let ?texts = "map question_text cluster_items"
  let ?sims = "similarities (encode rt ?texts)"
  let ?idxs = "rev (slice_from (argsort rt ?sims) (- top_k))"
  have len: "length ?sims = length ?texts"
    using assms by (simp add: similarities_def provider_ok_def)
  have "set (argsort rt ?sims) = {0..<length ?sims}"
    using assms by (intro is_argsort_set) (simp add: provider_ok_def)
  then have "\<forall>i\<in>set ?idxs. i < length ?texts"
    using set_slice_from [of "argsort rt ?sims" "- top_k"] len by auto
  then have "take_texts ?texts ?idxs = Inr (map (\<lambda>i. ?texts ! i) ?idxs)"
    by (rule take_texts_Inr)
  with False show ?thesis by (simp add: generate_semantic_keywords_def Let_def)
qed

lemma max_from_decomp:
  "\<forall>i\<in>set pre0. f i < f b \<Longrightarrow> \<forall>i\<in>set mid. f i \<le> f b \<Longrightarrow>
   \<exists>pre post. pre0 @ b # mid @ ids = pre @ max_from (b, f b) (map (\<lambda>i. (i, f i)) ids) # post
      \<and> (\<forall>i\<in>set pre. f i < f (max_from (b, f b) (map (\<lambda>i. (i, f i)) ids)))
      \<and> (\<forall>i\<in>set post. f i \<le> f (max_from (b, f b) (map (\<lambda>i. (i, f i)) ids)))"
proof (induction ids arbitrary: pre0 b mid)
  case Nil
  then show ?case by (intro exI [of _ pre0] exI [of _ mid]) simp
next
  case (Cons x xs)
  show ?case
  proof (cases "f b < f x")
    case True
    have 1: "\<forall>i\<in>set (pre0 @ b # mid). f i < f x"
      using Cons.prems True by fastforce
    from Cons.IH [of "pre0 @ b # mid" x "[]", OF 1] True show ?thesis by simp
  next
    case False
    have 2: "\<forall>i\<in>set (mid @ [x]). f i \<le> f b"
      using Cons.prems False by auto
    from Cons.IH [of pre0 b "mid @ [x]", OF Cons.prems(1) 2] False show ?thesis by simp
  qed
qed

lemma max_key_first_max:
  assumes "max_key (map (\<lambda>i. (i, f i)) ids) = Inr r"
  shows "\<exists>pre post. ids = pre @ r # post \<and> (\<forall>i\<in>set pre. f i < f r) \<and> (\<forall>i\<in>set post. f i \<le> f r)"
proof (cases ids)
  case Nil
  with assms show ?thesis by (simp add: max_key_def)
next
  case (Cons b rest)
  with assms have r: "r = max_from (b, f b) (map (\<lambda>i. (i, f i)) rest)"
    by (simp add: max_key_def)
  from max_from_decomp [of "[]" f b "[]" rest] show ?thesis
    unfolding r Cons by simp
qed

lemma max_key_Inr: "ids \<noteq> [] \<Longrightarrow> \<exists>r. max_key (map (\<lambda>i. (i, f i)) ids) = Inr r"
  by (cases ids) (auto simp: max_key_def)

lemma make_cluster_Inr:
  assumes "make_cluster rt questions score d group_no group_idx = Inr c"
  shows "item_ids c = group_members d group_idx"
    and "cluster_id c = group_no"
    and "\<forall>i\<in>set (item_ids c). i < length questions"
    and "items c = map (\<lambda>i. questions ! i) (item_ids c)"
    and "max_key (map (\<lambda>i. (i, score i)) (item_ids c)) = Inr (centroid_id c)"
    and "centroid c = questions ! centroid_id c"
    and "text_description c = question_text (questions ! centroid_id c)"
    and "fst (generate_semantic_keywords rt (items c) 5) = Inr (cluster_keywords c)"
  using assms
  by (auto simp: make_cluster_def group_members_def Let_def not_le
           split: if_splits sum.splits)

lemma make_cluster_succeeds:
  assumes "group_members d group_idx \<noteq> []"
    and "\<forall>i\<in>set (group_members d group_idx). i < length questions"
    and "provider_ok rt"
  shows "\<exists>c. make_cluster rt questions score d group_no group_idx = Inr c"
proof -
  let ?ids = "group_members d group_idx"
  obtain r where r: "max_key (map (\<lambda>i. (i, score i)) ?ids) = Inr r"
    using max_key_Inr [OF assms(1)] by blast
  obtain kws where k: "fst (generate_semantic_keywords rt (map (\<lambda>i. questions ! i) ?ids) 5) = Inr kws"
    using keywords_Inr [OF assms(3)] by blast
  have "\<not> (\<exists>i\<in>set ?ids. length questions \<le> i)" using assms(2) by auto
  with r k show ?thesis
    unfolding make_cluster_def group_members_def Let_def by simp
qed

lemma make_clusters_Inr:
  "make_clusters rt questions score d gs = Inr cs \<longleftrightarrow>
   list_all2 (\<lambda>(group_no, group_idx) c.
       make_cluster rt questions score d group_no group_idx = Inr c) gs cs"
proof (induction gs arbitrary: cs)
  case Nil
  show ?case by auto
next
  case (Cons g gs)
  obtain gn gi where g: "g = (gn, gi)" by (cases g)
  show ?case
  proof (cases cs)
    case Nil
    then show ?thesis by (simp add: g split: sum.splits)
  next
    case (Cons c cs')
    have "make_clusters rt questions score d (g # gs) = Inr (c # cs') \<longleftrightarrow>
          make_cluster rt questions score d gn gi = Inr c
          \<and> make_clusters rt questions score d gs = Inr cs'"
      by (auto simp: g split: sum.splits)
    then show ?thesis by (simp add: Cons g Cons.IH)
  qed
qed

lemma find_clusters_unfold:
  "find_clusters_deterministic rt questions m k =
     make_clusters rt questions (total_score m k)
       (question_idx_to_group_idx rt (final_graph m k))
       (enumerate 0 (sort (remdups (map snd (question_idx_to_group_idx rt (final_graph m k))))))"
  by (simp add: find_clusters_deterministic_def total_score_def final_graph_def
        case_prod_beta Let_def)

lemma find_clusters_member:
  assumes "find_clusters_deterministic rt questions m k = Inr cs" and "c \<in> set cs"
  shows "\<exists>group_no group_idx.
           make_cluster rt questions (total_score m k)
             (question_idx_to_group_idx rt (final_graph m k)) group_no group_idx = Inr c"
proof -
  from assms(1) obtain gs where
    "list_all2 (\<lambda>(group_no, group_idx) c.
       make_cluster rt questions (total_score m k)
         (question_idx_to_group_idx rt (final_graph m k)) group_no group_idx = Inr c) gs cs"
    unfolding find_clusters_unfold make_clusters_Inr by blast
  with assms(2) obtain g where
    "(\<lambda>(group_no, group_idx) c.
       make_cluster rt questions (total_score m k)
         (question_idx_to_group_idx rt (final_graph m k)) group_no group_idx = Inr c) g c"
    by (metis in_set_conv_nth list_all2_conv_all_nth)
  then show ?thesis by (cases g) auto
qed

lemma find_clusters_char:
  assumes "set_iter_ok rt (final_graph m k)" and "provider_ok rt"
    and "\<forall>i\<in>set (nodes (final_graph m k)). i < length questions"
    and "graph_ok (final_graph m k)"
  shows "\<exists>cs. find_clusters_deterministic rt questions m k = Inr cs
           \<and> map item_ids cs = map (set_iter rt) (connected_components (final_graph m k))
           \<and> map cluster_id cs = [0..<length (connected_components (final_graph m k))]"
proof -
  let ?g = "final_graph m k"
  let ?comps = "connected_components ?g"
  let ?d = "question_idx_to_group_idx rt ?g"
  let ?n = "length ?comps"
  let ?mk = "\<lambda>j. make_cluster rt questions (total_score m k) ?d j j"
  have d: "?d = tagged rt 0 ?comps" by (rule question_idx_to_group_idx_eq [OF assms(1)])
  have mem: "group_members ?d j = set_iter rt (?comps ! j)" if "j < ?n" for j
    using that members_tagged [of j rt 0 ?comps] by (simp add: group_members_def d)
  have ex: "\<exists>c. ?mk j = Inr c" if "j < ?n" for j
  proof (rule make_cluster_succeeds [OF _ _ assms(2)])
    have cj: "?comps ! j \<in> set ?comps" using that by simp
    then have ms: "mset (set_iter rt (?comps ! j)) = mset (?comps ! j)"
      using assms(1) by (simp add: set_iter_ok_def)
    have ne: "?comps ! j \<noteq> []" using cj by (rule connected_components_nonempty)
    from ms ne show "group_members ?d j \<noteq> []" unfolding mem [OF that] by auto
    have "set (?comps ! j) \<subseteq> set (concat ?comps)" using cj by auto
    then have "set (?comps ! j) \<subseteq> set (nodes ?g)"
      unfolding connected_components_set [OF assms(4)] .
    moreover have "set (set_iter rt (?comps ! j)) = set (?comps ! j)"
      using ms by (rule mset_eq_setD)
    ultimately show "\<forall>i\<in>set (group_members ?d j). i < length questions"
      unfolding mem [OF that] using assms(3) by auto
  qed
  define cs where "cs = map (\<lambda>j. projr (?mk j)) [0..<?n]"
  have csj: "?mk j = Inr (cs ! j)" if "j < ?n" for j
    using ex [OF that] that by (auto simp: cs_def)
  have len: "length cs = ?n" by (simp add: cs_def)
  have "list_all2 (\<lambda>(group_no, group_idx) c.
          make_cluster rt questions (total_score m k) ?d group_no group_idx = Inr c)
          (map (\<lambda>i. (i, i)) [0..<?n]) cs"
    using csj by (simp add: list_all2_conv_all_nth len)
  then have res: "find_clusters_deterministic rt questions m k = Inr cs"
    unfolding find_clusters_unfold make_clusters_Inr all_groups_eq [OF assms(1)] enumerate_upt .
  have ids: "map item_ids cs = map (set_iter rt) ?comps"
  proof (rule nth_equalityI)
    show "length (map item_ids cs) = length (map (set_iter rt) ?comps)" by (simp add: len)
  next
    fix j assume "j < length (map item_ids cs)"
    then have j: "j < ?n" by (simp add: len)
    from make_cluster_Inr(1) [OF csj [OF j]] mem [OF j] j len
    show "map item_ids cs ! j = map (set_iter rt) ?comps ! j" by simp
  qed
  have cid: "map cluster_id cs = [0..<?n]"
  proof (rule nth_equalityI)
    show "length (map cluster_id cs) = length [0..<?n]" by (simp add: len)
  next
    fix j assume "j < length (map cluster_id cs)"
    then have j: "j < ?n" by (simp add: len)
    from make_cluster_Inr(2) [OF csj [OF j]] j len
    show "map cluster_id cs ! j = [0..<?n] ! j" by simp
  qed
  from res ids cid show ?thesis by blast
qed

section \<open>The final graph and the example input\<close>

lemma provider_ok_reference: "provider_ok reference_runtime"
  by (simp add: provider_ok_def reference_runtime_def length_encoder_def is_argsort_def
        stable_argsort_def sorted_sort_key)

lemma final_graph_ok: "graph_ok (final_graph m k)"
proof -
  have "graph_ok \<lparr>nodes = [0..<shape0 m], edges = []\<rparr>"
    by (simp add: graph_ok_def edge_rel_def)
  then show ?thesis
    unfolding final_graph_def merge_def initial_graph by (rule merge_loop_graph_ok)
qed

lemma final_graph_nodes:
  assumes "shape0 m = n" "shape1 m = n"
  shows "nodes (final_graph m k) = [0..<n]"
proof -
  have "in_nodes \<lparr>nodes = [0..<n], edges = []\<rparr> (ranked_edges m)"
    by (auto simp: in_nodes_def set_ranked_edges assms)
  from merge_loop_nodes [OF this] show ?thesis
    by (simp add: final_graph_def merge_def initial_graph assms)
qed

lemmas eval_graph =
  connected_components_def number_connected_components_def plain_bfs_def adj_def
  plain_bfs_loop.simps
  add_edge_def add_node_def add_nodes_from_def empty_graph_def Let_def

lemmas eval_matrix =
  ranked_edges_def coord_to_sim_def np_abs_def of_rows_def
  upt_rec [of _ "numeral _"] upt_rec [of _ "Suc _"]

lemma example_final_graph:
  "final_graph example_matrix 2 = \<lparr>nodes = [0, 1, 2, 3], edges = [(0, 1), (2, 3)]\<rparr>"
  by (simp add: final_graph_def merge_def example_matrix_def eval_matrix eval_graph)

lemma example_components:
  "connected_components (final_graph example_matrix 2) = [[0, 1], [2, 3]]"
  by (simp add: example_final_graph eval_graph)

lemma cpython_small:
  "cpython_set_iter [0, Suc 0] = [0, Suc 0]" "cpython_set_iter [2, 3] = [2, 3]"
  by code_simp+

lemma example_set_iter_ok: "set_iter_ok reference_runtime (final_graph example_matrix 2)"
  by (simp add: set_iter_ok_def example_components reference_runtime_def cpython_small)

lemma example_valid: "valid_input example_questions example_matrix"
  by (simp add: valid_input_def example_questions_def example_matrix_def of_rows_def)

section \<open>The claims\<close>

lemma find_clusters_valid:
  assumes "valid_input questions m" and "provider_ok rt"
    and "set_iter_ok rt (final_graph m k)"
  shows "\<exists>cs. find_clusters_deterministic rt questions m k = Inr cs
           \<and> map item_ids cs = map (set_iter rt) (connected_components (final_graph m k))
           \<and> map cluster_id cs = [0..<length (connected_components (final_graph m k))]"
proof (rule find_clusters_char [OF assms(3) assms(2) _ final_graph_ok])
  have "nodes (final_graph m k) = [0..<length questions]"
    using assms(1) by (intro final_graph_nodes) (simp_all add: valid_input_def)
  then show "\<forall>i\<in>set (nodes (final_graph m k)). i < length questions" by simp
qed

text \<open>
  C2 (partition property). On a valid input with \<open>N\<close> questions, whatever the number of
  clusters asked for, the function returns clusters, and the lists of member ids of
  all clusters together hold every index \<open>0, \<dots>, N - 1\<close> exactly once. The runtime is
  assumed to keep its contracts: the provider returns one embedding per text,
  \<^verbatim>\<open>argsort\<close> sorts, and iterating over a component yields each of its elements once.
\<close>

theorem partition_property:
  assumes "valid_input questions m" and "provider_ok rt"
    and "set_iter_ok rt (final_graph m k)"
  shows "\<exists>cs. find_clusters_deterministic rt questions m k = Inr cs
           \<and> mset (concat (map item_ids cs)) = mset [0..<length questions]"
proof -
  from find_clusters_valid [OF assms] obtain cs where
    cs: "find_clusters_deterministic rt questions m k = Inr cs"
    and ids: "map item_ids cs = map (set_iter rt) (connected_components (final_graph m k))"
    by blast
  have "nodes (final_graph m k) = [0..<length questions]"
    using assms(1) by (intro final_graph_nodes) (simp_all add: valid_input_def)
  then have "mset (concat (map item_ids cs)) = mset [0..<length questions]"
    using set_iter_ok_concat [OF assms(3)] connected_components_mset [OF final_graph_ok, of m k]
    by (simp add: ids)
  with cs show ?thesis by blast
qed

theorem partition_property_witness:
  "valid_input example_questions example_matrix \<and> provider_ok reference_runtime
   \<and> set_iter_ok reference_runtime (final_graph example_matrix 2)
   \<and> (\<exists>cs. find_clusters_deterministic reference_runtime example_questions example_matrix 2
              = Inr cs
          \<and> mset (concat (map item_ids cs)) = mset [0..<length example_questions])"
  using partition_property [OF example_valid provider_ok_reference example_set_iter_ok]
    example_valid provider_ok_reference example_set_iter_ok
  by simp

lemma plain_bfs_isolated: "edges g = [] \<Longrightarrow> plain_bfs g v = [v]"
  by (simp add: plain_bfs_def plain_bfs_loop.simps adj_def)

lemma components_from_edgeless:
  "edges g = [] \<Longrightarrow> distinct vs \<Longrightarrow> set vs \<inter> set seen = {} \<Longrightarrow>
   components_from g seen vs = map (\<lambda>v. [v]) vs"
proof (induction vs arbitrary: seen)
  case Nil
  show ?case by simp
next
  case (Cons v vs)
  have "set vs \<inter> set (seen @ [v]) = {}" using Cons.prems by auto
  with Cons.IH [of "seen @ [v]"] Cons.prems show ?case
    by (simp add: plain_bfs_isolated)
qed

lemma connected_components_edgeless:
  "edges g = [] \<Longrightarrow> distinct (nodes g) \<Longrightarrow> connected_components g = map (\<lambda>v. [v]) (nodes g)"
  by (simp add: connected_components_def components_from_edgeless)

lemma merge_many_clusters:
  assumes "int (shape0 m) \<le> k"
  shows "merge m k = (\<lparr>nodes = [0..<shape0 m], edges = []\<rparr>, (\<lambda>_. 0))"
proof -
  have "number_connected_components \<lparr>nodes = [0..<shape0 m], edges = []\<rparr> = shape0 m"
    by (simp add: number_connected_components_edgeless)
  with assms show ?thesis
    by (simp add: merge_def initial_graph merge_loop_stop)
qed

lemma set_iter_single:
  assumes "mset (set_iter rt [i]) = mset [i]"
  shows "set_iter rt [i] = [i]"
  using assms by (metis mset.simps(1) mset.simps(2) mset_single_iff_right)

text \<open>
  C3 (cluster count). On a valid input with \<open>N \<ge> 1\<close> questions and \<open>num_clusters \<ge> 1\<close>
  the function returns \<open>min num_clusters N\<close> clusters. When \<open>num_clusters \<ge> N\<close> these
  are the \<open>N\<close> singletons in index order: cluster \<open>i\<close> has the one member \<open>i\<close>, which is
  its centroid, and every centrality score is zero.
\<close>

theorem cluster_count:
  assumes "valid_input questions m" and "1 \<le> length questions" and "1 \<le> k"
    and "provider_ok rt" and "set_iter_ok rt (final_graph m k)"
  shows "\<exists>cs. find_clusters_deterministic rt questions m k = Inr cs
           \<and> int (length cs) = min k (int (length questions))
           \<and> (int (length questions) \<le> k \<longrightarrow>
                map item_ids cs = map (\<lambda>i. [i]) [0..<length questions]
                \<and> map centroid_id cs = [0..<length questions]
                \<and> map centroid cs = questions
                \<and> (\<forall>i. total_score m k i = 0))"
proof -
  let ?n = "length questions"
  let ?comps = "connected_components (final_graph m k)"
  have shape: "shape0 m = ?n" "shape1 m = ?n" using assms(1) by (simp_all add: valid_input_def)
  from find_clusters_valid [OF assms(1,4,5)] obtain cs where
    cs: "find_clusters_deterministic rt questions m k = Inr cs"
    and ids: "map item_ids cs = map (set_iter rt) ?comps"
    by blast
  have "length cs = length ?comps" using ids by (metis length_map)
  then have "int (length cs) = max 1 (min k (int ?n))"
    using number_connected_components_final [OF shape assms(2), of k]
    by (simp add: number_connected_components_def)
  then have count: "int (length cs) = min k (int ?n)" using assms(2,3) by simp
  have many: "map item_ids cs = map (\<lambda>i. [i]) [0..<?n]
              \<and> map centroid_id cs = [0..<?n] \<and> map centroid cs = questions
              \<and> (\<forall>i. total_score m k i = 0)" if big: "int ?n \<le> k"
  proof -
    have mg: "merge m k = (\<lparr>nodes = [0..<?n], edges = []\<rparr>, (\<lambda>_. 0))"
      using merge_many_clusters [of m k] big shape by simp
    then have score: "total_score m k i = 0" for i by (simp add: total_score_def)
    have comps: "?comps = map (\<lambda>v. [v]) [0..<?n]"
      using mg by (simp add: final_graph_def connected_components_edgeless)
    have single: "set_iter rt [i] = [i]" if "i < ?n" for i
    proof (rule set_iter_single)
      have "[i] \<in> set ?comps" using that by (simp add: comps)
      then show "mset (set_iter rt [i]) = mset [i]"
        using assms(5) unfolding set_iter_ok_def by blast
    qed
    have ids': "map item_ids cs = map (\<lambda>i. [i]) [0..<?n]"
      unfolding ids comps using single by simp
    have len: "length cs = ?n" using ids' by (metis length_map length_upt minus_nat.diff_0)
    have one: "item_ids (cs ! i) = [i]" if "i < ?n" for i
      using that ids' len by (metis nth_map nth_upt add_0 length_upt minus_nat.diff_0)
    have cen: "centroid_id (cs ! i) = i \<and> centroid (cs ! i) = questions ! i" if "i < ?n" for i
    proof -
      have "cs ! i \<in> set cs" using that len by simp
      from find_clusters_member [OF cs this] obtain gn gi where
        mk: "make_cluster rt questions (total_score m k)
               (question_idx_to_group_idx rt (final_graph m k)) gn gi = Inr (cs ! i)"
        by blast
      from make_cluster_Inr(5) [OF mk] one [OF that]
      have "centroid_id (cs ! i) = i" by (simp add: max_key_def)
      with make_cluster_Inr(6) [OF mk] show ?thesis by simp
    qed
    have "map centroid_id cs = [0..<?n]"
      by (rule nth_equalityI) (simp_all add: len cen)
    moreover have "map centroid cs = questions"
      by (rule nth_equalityI) (simp_all add: len cen)
    ultimately show ?thesis using ids' score by simp
  qed
  from cs count many show ?thesis by blast
qed

lemma example_final_graph_5:
  "final_graph example_matrix 5 = \<lparr>nodes = [0, 1, 2, 3], edges = []\<rparr>"
  by (simp add: final_graph_def merge_many_clusters example_matrix_def of_rows_def
        upt_rec [of _ "numeral _"] upt_rec [of _ "Suc _"])

lemma cpython_single: "cpython_set_iter [0] = [0]" "cpython_set_iter [Suc 0] = [Suc 0]"
  "cpython_set_iter [2] = [2]" "cpython_set_iter [3] = [3]"
  by code_simp+

lemma example_set_iter_ok_5: "set_iter_ok reference_runtime (final_graph example_matrix 5)"
  by (simp add: set_iter_ok_def example_final_graph_5 eval_graph reference_runtime_def
        cpython_single)

theorem cluster_count_witness:
  "valid_input example_questions example_matrix \<and> 1 \<le> length example_questions
   \<and> (1::int) \<le> 5 \<and> provider_ok reference_runtime
   \<and> set_iter_ok reference_runtime (final_graph example_matrix 5)
   \<and> int (length example_questions) \<le> 5
   \<and> (\<exists>cs. find_clusters_deterministic reference_runtime example_questions example_matrix 5
              = Inr cs
          \<and> length cs = 4
          \<and> map item_ids cs = [[0], [1], [2], [3]]
          \<and> map centroid_id cs = [0, 1, 2, 3]
          \<and> map centroid cs = example_questions
          \<and> total_score example_matrix 5 0 = 0)"
proof -
  have len: "length example_questions = 4" by (simp add: example_questions_def)
  have 1: "1 \<le> length example_questions" by (simp add: len)
  have 2: "(1::int) \<le> 5" by simp
  from cluster_count [OF example_valid 1 2 provider_ok_reference example_set_iter_ok_5]
  obtain cs where
    "find_clusters_deterministic reference_runtime example_questions example_matrix 5 = Inr cs"
    "int (length cs) = min 5 (int (length example_questions))"
    "map item_ids cs = map (\<lambda>i. [i]) [0..<length example_questions]"
    "map centroid_id cs = [0..<length example_questions]"
    "map centroid cs = example_questions"
    "total_score example_matrix 5 0 = 0"
    by (auto simp: len)
  then show ?thesis
    using example_valid provider_ok_reference example_set_iter_ok_5
    by (intro conjI exI [of _ cs]) (simp_all add: len upt_rec [of _ "numeral _"] upt_rec [of _ "Suc _"])
qed

text \<open>
  C4 (centroid membership). In every cluster the function returns, the centroid id is
  one of the cluster's member ids, and no member has a greater accumulated centrality
  score than the centroid.
\<close>

theorem centroid_membership:
  assumes "find_clusters_deterministic rt questions m k = Inr cs" and "c \<in> set cs"
  shows "centroid_id c \<in> set (item_ids c)
         \<and> (\<forall>i\<in>set (item_ids c). total_score m k i \<le> total_score m k (centroid_id c))"
proof -
  from find_clusters_member [OF assms] obtain gn gi where
    mk: "make_cluster rt questions (total_score m k)
           (question_idx_to_group_idx rt (final_graph m k)) gn gi = Inr c"
    by blast
  from max_key_first_max [OF make_cluster_Inr(5) [OF mk]] obtain pre post where
    "item_ids c = pre @ centroid_id c # post"
    "\<forall>i\<in>set pre. total_score m k i < total_score m k (centroid_id c)"
    "\<forall>i\<in>set post. total_score m k i \<le> total_score m k (centroid_id c)"
    by blast
  then show ?thesis by auto
qed

lemma example_result:
  "\<exists>c0 c1. find_clusters_deterministic reference_runtime example_questions example_matrix 2
             = Inr [c0, c1]
     \<and> item_ids c0 = [0, 1] \<and> item_ids c1 = [2, 3]"
proof -
  from find_clusters_valid [OF example_valid provider_ok_reference example_set_iter_ok]
  obtain cs where
    cs: "find_clusters_deterministic reference_runtime example_questions example_matrix 2
         = Inr cs"
    and ids: "map item_ids cs = [[0, 1], [2, 3]]"
    by (auto simp: example_components reference_runtime_def cpython_small)
  from ids obtain c0 c1 where "cs = [c0, c1]" by auto
  with cs ids show ?thesis by auto
qed

theorem centroid_membership_witness:
  "find_clusters_deterministic reference_runtime example_questions example_matrix 2
     = Inr (projr (find_clusters_deterministic reference_runtime example_questions
                     example_matrix 2))
   \<and> hd (projr (find_clusters_deterministic reference_runtime example_questions
                     example_matrix 2))
     \<in> set (projr (find_clusters_deterministic reference_runtime example_questions
                     example_matrix 2))
   \<and> centroid_id (hd (projr (find_clusters_deterministic reference_runtime example_questions
                     example_matrix 2))) \<in> {0, 1}
   \<and> total_score example_matrix 2 1
      \<le> total_score example_matrix 2
           (centroid_id (hd (projr (find_clusters_deterministic reference_runtime
                     example_questions example_matrix 2))))"
proof -
  let ?r = "find_clusters_deterministic reference_runtime example_questions example_matrix 2"
  from example_result obtain c0 c1 where
    r: "?r = Inr [c0, c1]" and ids: "item_ids c0 = [0, 1]"
    by blast
  have eq: "?r = Inr (projr ?r)" and hd: "hd (projr ?r) = c0" and mem: "c0 \<in> set (projr ?r)"
    by (simp_all add: r)
  from centroid_membership [OF eq mem] ids
  have "centroid_id c0 \<in> {0, 1}"
    and "total_score example_matrix 2 1 \<le> total_score example_matrix 2 (centroid_id c0)"
    by auto
  with eq mem show ?thesis unfolding hd by simp
qed

lemma tie_final_graph:
  "final_graph tie_matrix 8 = \<lparr>nodes = [0, 1, 2, 3, 4, 5, 6, 7, 8], edges = [(1, 8)]\<rparr>"
  by (simp add: final_graph_def merge_def tie_matrix_def eval_matrix eval_graph)

lemma tie_scores: "total_score tie_matrix 8 1 = 9/10" "total_score tie_matrix 8 8 = 9/10"
  "total_score tie_matrix 8 (Suc 0) = 9/10"
  by (simp_all add: total_score_def merge_def tie_matrix_def eval_matrix eval_graph)

lemma tie_components:
  "connected_components (final_graph tie_matrix 8)
   = [[0], [1, 8], [2], [3], [4], [5], [6], [7]]"
  by (simp add: tie_final_graph eval_graph)

lemma cpython_tie:
  "cpython_set_iter [Suc 0, 8] = [8, Suc 0]"
  "cpython_set_iter [4] = [4]" "cpython_set_iter [5] = [5]"
  "cpython_set_iter [6] = [6]" "cpython_set_iter [7] = [7]"
  by code_simp+

lemma tie_set_iter_ok: "set_iter_ok reference_runtime (final_graph tie_matrix 8)"
  by (simp add: set_iter_ok_def tie_components reference_runtime_def cpython_tie cpython_single)

lemma tie_valid: "valid_input tie_questions tie_matrix"
  by (simp add: valid_input_def tie_questions_def tie_matrix_def)

lemma example_scores:
  "total_score example_matrix 2 0 = 18/10" "total_score example_matrix 2 1 = 18/10"
  "total_score example_matrix 2 2 = 8/10" "total_score example_matrix 2 3 = 8/10"
  "total_score example_matrix 2 (Suc 0) = 18/10"
  by (simp_all add: total_score_def merge_def example_matrix_def eval_matrix eval_graph)

text \<open>
  C6 (tie-break), as the code has it. In every returned cluster the centroid is the
  first member, in the order of the cluster's list of member ids, whose score is
  maximal: every member listed before it has a strictly smaller score. When that list
  is in ascending order, the centroid is therefore the tied member with the smallest
  index.
\<close>

theorem centroid_tie_break:
  assumes "find_clusters_deterministic rt questions m k = Inr cs" and "c \<in> set cs"
  shows "(\<exists>pre post. item_ids c = pre @ centroid_id c # post
            \<and> (\<forall>i\<in>set pre. total_score m k i < total_score m k (centroid_id c)))
         \<and> (sorted (item_ids c) \<longrightarrow>
              (\<forall>i\<in>set (item_ids c).
                 total_score m k i = total_score m k (centroid_id c) \<longrightarrow> centroid_id c \<le> i))"
proof -
  from find_clusters_member [OF assms] obtain gn gi where
    mk: "make_cluster rt questions (total_score m k)
           (question_idx_to_group_idx rt (final_graph m k)) gn gi = Inr c"
    by blast
  from max_key_first_max [OF make_cluster_Inr(5) [OF mk]] obtain pre post where
    dec: "item_ids c = pre @ centroid_id c # post"
    and pre: "\<forall>i\<in>set pre. total_score m k i < total_score m k (centroid_id c)"
    by blast
  have "centroid_id c \<le> i"
    if "sorted (item_ids c)" "i \<in> set (item_ids c)"
      "total_score m k i = total_score m k (centroid_id c)" for i
  proof -
    from that(2,3) pre dec have "i = centroid_id c \<or> i \<in> set post" by auto
    moreover have "\<forall>j\<in>set post. centroid_id c \<le> j"
      using that(1) unfolding dec by (simp add: sorted_append)
    ultimately show ?thesis by auto
  qed
  with dec pre show ?thesis by blast
qed

theorem centroid_tie_break_witness:
  "find_clusters_deterministic reference_runtime example_questions example_matrix 2
     = Inr (projr (find_clusters_deterministic reference_runtime example_questions
                     example_matrix 2))
   \<and> hd (projr (find_clusters_deterministic reference_runtime example_questions
                     example_matrix 2))
     \<in> set (projr (find_clusters_deterministic reference_runtime example_questions
                     example_matrix 2))
   \<and> sorted (item_ids (hd (projr (find_clusters_deterministic reference_runtime
                     example_questions example_matrix 2))))
   \<and> total_score example_matrix 2 0 = total_score example_matrix 2 1
   \<and> centroid_id (hd (projr (find_clusters_deterministic reference_runtime example_questions
                     example_matrix 2))) = 0"
proof -
  let ?r = "find_clusters_deterministic reference_runtime example_questions example_matrix 2"
  from example_result obtain c0 c1 where
    r: "?r = Inr [c0, c1]" and ids: "item_ids c0 = [0, 1]"
    by blast
  have eq: "?r = Inr (projr ?r)" and hd: "hd (projr ?r) = c0" and mem: "c0 \<in> set (projr ?r)"
    by (simp_all add: r)
  have srt: "sorted (item_ids c0)" by (simp add: ids)
  from centroid_membership [OF eq mem] ids
  have cen: "centroid_id c0 = 0 \<or> centroid_id c0 = 1" by auto
  then have tie: "total_score example_matrix 2 0 = total_score example_matrix 2 (centroid_id c0)"
    by (auto simp: example_scores)
  from centroid_tie_break [OF eq mem] srt tie ids
  have "centroid_id c0 \<le> 0" by auto
  with eq mem srt show ?thesis unfolding hd by (simp add: example_scores)
qed

text \<open>
  The claim as stated fails on the tie example: the merged pair \<open>{1, 8}\<close> is tied, CPython
  iterates over the set \<open>{1, 8}\<close> in the order \<open>8, 1\<close>, and the centroid is \<open>8\<close>.
\<close>

theorem centroid_tie_break_counterexample:
  "find_clusters_deterministic reference_runtime tie_questions tie_matrix 8
     = Inr (projr (find_clusters_deterministic reference_runtime tie_questions tie_matrix 8))
   \<and> item_ids (projr (find_clusters_deterministic reference_runtime tie_questions
                        tie_matrix 8) ! 1) = [8, 1]
   \<and> total_score tie_matrix 8 1 = total_score tie_matrix 8 8
   \<and> centroid_id (projr (find_clusters_deterministic reference_runtime tie_questions
                        tie_matrix 8) ! 1) = 8"
proof -
  let ?r = "find_clusters_deterministic reference_runtime tie_questions tie_matrix 8"
  from find_clusters_valid [OF tie_valid provider_ok_reference tie_set_iter_ok]
  obtain cs where
    cs: "?r = Inr cs"
    and ids: "map item_ids cs = [[0], [8, 1], [2], [3], [4], [5], [6], [7]]"
    by (auto simp: tie_components reference_runtime_def cpython_tie cpython_single)
  have "length (map item_ids cs) = 8" unfolding ids by simp
  then have len: "length cs = 8" by simp
  have eq: "?r = Inr (projr ?r)" and pr: "projr ?r = cs" by (simp_all add: cs)
  have "map item_ids cs ! 1 = [8, 1]" unfolding ids by simp
  then have one: "item_ids (cs ! 1) = [8, 1]" using len by simp
  have "cs ! 1 \<in> set cs" using len by simp
  from find_clusters_member [OF cs this] obtain gn gi where
    mk: "make_cluster reference_runtime tie_questions (total_score tie_matrix 8)
           (question_idx_to_group_idx reference_runtime (final_graph tie_matrix 8)) gn gi
         = Inr (cs ! 1)"
    by blast
  from make_cluster_Inr(5) [OF mk] one
  have "centroid_id (cs ! 1) = 8" by (simp add: max_key_def tie_scores)
  with eq one show ?thesis unfolding pr by (simp add: tie_scores)
qed

lemma set_nodes_add_edge: "set (nodes (add_edge g u v)) = insert u (insert v (set (nodes g)))"
  by (auto simp: add_edge_def Let_def nodes_add_node)

lemma merge_loop_nodes_mono:
  "set (nodes g) \<subseteq> set (nodes (fst (merge_loop k es (g, sc))))"
proof (induction es arbitrary: g sc)
  case Nil
  show ?case by simp
next
  case (Cons e es)
  obtain y x s where e: "e = ((y, x), s)" by (metis surj_pair)
  have "set (nodes g) \<subseteq> set (nodes (add_edge g y x))" by (auto simp: set_nodes_add_edge)
  with Cons.IH [of g sc] Cons.IH [of "add_edge g y x"] show ?case
    by (simp add: e Let_def) blast
qed

lemma merge_loop_nodes_bound:
  "set (nodes (fst (merge_loop k es (g, sc))))
   \<subseteq> set (nodes g) \<union> fst ` fst ` set es \<union> snd ` fst ` set es"
proof (induction es arbitrary: g sc)
  case Nil
  show ?case by simp
next
  case (Cons e es)
  obtain y x s where e: "e = ((y, x), s)" by (metis surj_pair)
  have 1: "set (nodes (add_edge g y x)) \<union> fst ` fst ` set es \<union> snd ` fst ` set es
           \<subseteq> set (nodes g) \<union> fst ` fst ` set (e # es) \<union> snd ` fst ` set (e # es)"
    by (auto simp: set_nodes_add_edge e)
  have 2: "set (nodes g) \<union> fst ` fst ` set es \<union> snd ` fst ` set es
           \<subseteq> set (nodes g) \<union> fst ` fst ` set (e # es) \<union> snd ` fst ` set (e # es)"
    by auto
  show ?case
  proof (cases "x \<noteq> y \<and> \<not> int (number_connected_components g) \<le> k")
    case True
    define sc' where "sc' = (sc(x := sc x + s))(y := (sc(x := sc x + s)) y + s)"
    have "fst (merge_loop k (e # es) (g, sc)) = fst (merge_loop k es (add_edge g y x, sc'))"
      using True by (simp add: e Let_def sc'_def)
    with Cons.IH [of "add_edge g y x" sc'] 1 show ?thesis by auto
  next
    case False
    then have "fst (merge_loop k (e # es) (g, sc)) = g
               \<or> fst (merge_loop k (e # es) (g, sc)) = fst (merge_loop k es (g, sc))"
      by (auto simp: e)
    with Cons.IH [of g sc] 2 show ?thesis by auto
  qed
qed

lemma final_graph_nodes_bounds:
  "{0..<shape0 m} \<subseteq> set (nodes (final_graph m k))"
  "set (nodes (final_graph m k)) \<subseteq> {0..<max (shape0 m) (shape1 m)}"
proof -
  let ?g0 = "\<lparr>nodes = [0..<shape0 m], edges = []\<rparr>"
  have fg: "final_graph m k = fst (merge_loop k (ranked_edges m) (?g0, (\<lambda>_. 0)))"
    by (simp add: final_graph_def merge_def initial_graph)
  show "{0..<shape0 m} \<subseteq> set (nodes (final_graph m k))"
    unfolding fg using merge_loop_nodes_mono [of ?g0 k "ranked_edges m" "\<lambda>_. 0"] by simp
  have el: "fst (fst e) < shape0 m \<and> snd (fst e) < shape1 m" if "e \<in> set (ranked_edges m)" for e
    using that unfolding set_ranked_edges by auto
  have f: "fst ` fst ` set (ranked_edges m) \<subseteq> {0..<shape0 m}"
  proof
    fix y assume "y \<in> fst ` fst ` set (ranked_edges m)"
    then obtain e where "e \<in> set (ranked_edges m)" "y = fst (fst e)" by blast
    with el [of e] show "y \<in> {0..<shape0 m}" by simp
  qed
  have s: "snd ` fst ` set (ranked_edges m) \<subseteq> {0..<shape1 m}"
  proof
    fix x assume "x \<in> snd ` fst ` set (ranked_edges m)"
    then obtain e where "e \<in> set (ranked_edges m)" "x = snd (fst e)" by blast
    with el [of e] show "x \<in> {0..<shape1 m}" by simp
  qed
  have m0: "{0..<shape0 m} \<subseteq> {0..<max (shape0 m) (shape1 m)}"
    and m1: "{0..<shape1 m} \<subseteq> {0..<max (shape0 m) (shape1 m)}"
    by auto
  have "{0..<shape0 m} \<union> fst ` fst ` set (ranked_edges m) \<union> snd ` fst ` set (ranked_edges m)
        \<subseteq> {0..<max (shape0 m) (shape1 m)}"
    by (intro Un_least m0 subset_trans [OF f m0] subset_trans [OF s m1])
  moreover have "set (nodes (final_graph m k))
      \<subseteq> {0..<shape0 m} \<union> fst ` fst ` set (ranked_edges m) \<union> snd ` fst ` set (ranked_edges m)"
    unfolding fg using merge_loop_nodes_bound [of k "ranked_edges m" ?g0 "\<lambda>_. 0"] by simp
  ultimately show "set (nodes (final_graph m k)) \<subseteq> {0..<max (shape0 m) (shape1 m)}"
    by (rule subset_trans [rotated])
qed

lemma find_clusters_partition:
  assumes "provider_ok rt" and "set_iter_ok rt (final_graph m k)"
    and "\<forall>i\<in>set (nodes (final_graph m k)). i < length questions"
  shows "\<exists>cs. find_clusters_deterministic rt questions m k = Inr cs
           \<and> mset (concat (map item_ids cs)) = mset (nodes (final_graph m k))
           \<and> length cs = number_connected_components (final_graph m k)"
proof -
  from find_clusters_char [OF assms(2,1,3) final_graph_ok] obtain cs where
    cs: "find_clusters_deterministic rt questions m k = Inr cs"
    and ids: "map item_ids cs = map (set_iter rt) (connected_components (final_graph m k))"
    by blast
  have "mset (concat (map item_ids cs)) = mset (nodes (final_graph m k))"
    using set_iter_ok_concat [OF assms(2)] connected_components_mset [OF final_graph_ok, of m k]
    by (simp add: ids)
  moreover have "length cs = number_connected_components (final_graph m k)"
    using ids unfolding number_connected_components_def by (metis length_map)
  ultimately show ?thesis using cs by blast
qed

lemma take_texts_Inl: "take_texts texts idxs = Inl e \<Longrightarrow> e = IndexError"
  by (induction idxs) (auto split: if_splits sum.splits)

lemma keywords_Inl: "fst (generate_semantic_keywords rt its top_k) = Inl e \<Longrightarrow> e = IndexError"
  by (auto simp: generate_semantic_keywords_def Let_def split: if_splits dest: take_texts_Inl)

lemma make_cluster_Inl:
  assumes "make_cluster rt questions score d group_no group_idx = Inl e"
    and "group_members d group_idx \<noteq> []"
  shows "e = IndexError"
proof -
  from assms(2) obtain r where
    "max_key (map (\<lambda>i. (i, score i)) (group_members d group_idx)) = Inr r"
    using max_key_Inr by blast
  with assms(1) show ?thesis
    by (auto simp: make_cluster_def group_members_def Let_def
          split: if_splits sum.splits dest: keywords_Inl)
qed

lemma make_cluster_out_of_range:
  assumes "v \<in> set (group_members d group_idx)" and "length questions \<le> v"
  shows "make_cluster rt questions score d group_no group_idx = Inl IndexError"
  using assms unfolding make_cluster_def group_members_def Let_def by auto

lemma make_clusters_Inl:
  "make_clusters rt questions score d gs = Inl e \<Longrightarrow>
   \<exists>(group_no, group_idx)\<in>set gs.
      make_cluster rt questions score d group_no group_idx = Inl e"
proof (induction gs)
  case Nil
  then show ?case by simp
next
  case (Cons g gs)
  obtain gn gi where g: "g = (gn, gi)" by (cases g)
  from Cons show ?case by (auto simp: g split: sum.splits)
qed

lemma find_clusters_too_few_questions:
  assumes "set_iter_ok rt (final_graph m k)" and "length questions < shape0 m"
  shows "find_clusters_deterministic rt questions m k = Inl IndexError"
proof -
  let ?g = "final_graph m k"
  let ?comps = "connected_components ?g"
  let ?d = "question_idx_to_group_idx rt ?g"
  let ?n = "length ?comps"
  let ?v = "length questions"
  have d: "?d = tagged rt 0 ?comps" by (rule question_idx_to_group_idx_eq [OF assms(1)])
  have mem: "group_members ?d j = set_iter rt (?comps ! j)" if "j < ?n" for j
    using that members_tagged [of j rt 0 ?comps] by (simp add: group_members_def d)
  have set_mem: "set (group_members ?d j) = set (?comps ! j)" if "j < ?n" for j
  proof -
    have "mset (set_iter rt (?comps ! j)) = mset (?comps ! j)"
      using assms(1) that by (simp add: set_iter_ok_def)
    then show ?thesis unfolding mem [OF that] by (rule mset_eq_setD)
  qed
  have ne: "group_members ?d j \<noteq> []" if "j < ?n" for j
    using set_mem [OF that] connected_components_nonempty [of "?comps ! j" ?g] that
    by (metis nth_mem set_empty)
  have "?v \<in> set (nodes ?g)" using final_graph_nodes_bounds(1) [of m k] assms(2) by auto
  then have "?v \<in> set (concat ?comps)"
    by (simp only: connected_components_set [OF final_graph_ok])
  then obtain c where c: "c \<in> set ?comps" "?v \<in> set c" by auto
  then obtain j where j: "j < ?n" "?v \<in> set (?comps ! j)"
    by (metis in_set_conv_nth)
  then have bad: "make_cluster rt questions (total_score m k) ?d j j = Inl IndexError"
    using set_mem [OF j(1)] by (intro make_cluster_out_of_range [of ?v]) auto
  let ?r = "make_clusters rt questions (total_score m k) ?d (map (\<lambda>i. (i, i)) [0..<?n])"
  have r: "find_clusters_deterministic rt questions m k = ?r"
    unfolding find_clusters_unfold all_groups_eq [OF assms(1)] enumerate_upt ..
  have "\<not> (\<exists>cs. ?r = Inr cs)"
  proof
    assume "\<exists>cs. ?r = Inr cs"
    then obtain cs where "list_all2 (\<lambda>(group_no, group_idx) c.
        make_cluster rt questions (total_score m k) ?d group_no group_idx = Inr c)
        (map (\<lambda>i. (i, i)) [0..<?n]) cs"
      unfolding make_clusters_Inr by blast
    then have "make_cluster rt questions (total_score m k) ?d j j = Inr (cs ! j)"
      using j(1) by (auto simp: list_all2_conv_all_nth)
    with bad show False by simp
  qed
  then obtain e where e: "?r = Inl e" by (cases ?r) auto
  from make_clusters_Inl [OF e] obtain i where
    "i < ?n" "make_cluster rt questions (total_score m k) ?d i i = Inl e"
    by auto
  then have "e = IndexError" using make_cluster_Inl ne by blast
  with e r show ?thesis by simp
qed

lemma example_final_graph_0:
  "final_graph example_matrix 0
   = \<lparr>nodes = [0, 1, 2, 3], edges = [(0, 1), (2, 3), (0, 2), (0, 3), (1, 2), (1, 3)]\<rparr>"
  by (simp add: final_graph_def merge_def example_matrix_def eval_matrix eval_graph)

lemma example_components_0:
  "connected_components (final_graph example_matrix 0) = [[0, 1, 2, 3]]"
  by (simp add: example_final_graph_0 eval_graph)

lemma cpython_four: "cpython_set_iter [0, Suc 0, 2, 3] = [0, Suc 0, 2, 3]"
  by code_simp

lemma example_set_iter_ok_0: "set_iter_ok reference_runtime (final_graph example_matrix 0)"
  by (simp add: set_iter_ok_def example_components_0 reference_runtime_def cpython_four)

text \<open>
  The claim as stated fails on the example input with \<open>num_clusters = 0\<close>: the function
  raises nothing and returns one cluster with the members \<open>0, 1, 2, 3\<close>.
\<close>

theorem nonpositive_num_clusters_counterexample:
  "find_clusters_deterministic reference_runtime example_questions example_matrix 0
     = Inr (projr (find_clusters_deterministic reference_runtime example_questions
                     example_matrix 0))
   \<and> map item_ids (projr (find_clusters_deterministic reference_runtime example_questions
                             example_matrix 0)) = [[0, 1, 2, 3]]"
proof -
  from find_clusters_valid [OF example_valid provider_ok_reference example_set_iter_ok_0]
  obtain cs where
    "find_clusters_deterministic reference_runtime example_questions example_matrix 0 = Inr cs"
    "map item_ids cs = [[0, 1, 2, 3]]"
    by (auto simp: example_components_0 reference_runtime_def cpython_four)
  then show ?thesis by simp
qed

lemma small_final_graph:
  "final_graph small_matrix 1 = \<lparr>nodes = [0, 1], edges = [(0, 1)]\<rparr>"
  by (simp add: final_graph_def merge_def small_matrix_def eval_matrix eval_graph)

lemma small_components: "connected_components (final_graph small_matrix 1) = [[0, 1]]"
  by (simp add: small_final_graph eval_graph)

lemma small_set_iter_ok: "set_iter_ok reference_runtime (final_graph small_matrix 1)"
  by (simp add: set_iter_ok_def small_components reference_runtime_def cpython_small)

text \<open>
  C8 (no check of the shape), as the code has it. The function never compares the
  shape of the matrix with the number of questions \<open>N\<close>. When neither axis of the matrix
  is longer than \<open>N\<close> it returns clusters that partition the nodes of its graph, among
  them every row index of the matrix (for an \<open>M \<times> M\<close> matrix with \<open>M < N\<close>: a
  partition of \<open>0, \<dots>, M - 1\<close>, the other questions being in no cluster). When the
  matrix has more rows than \<open>N\<close>, it raises \<^verbatim>\<open>IndexError\<close>, and it does so when it
  assembles the clusters, after the merge.
\<close>

theorem no_shape_check:
  assumes "provider_ok rt" and "set_iter_ok rt (final_graph m k)"
  shows "(shape0 m \<le> length questions \<and> shape1 m \<le> length questions \<longrightarrow>
            (\<exists>cs. find_clusters_deterministic rt questions m k = Inr cs
               \<and> mset (concat (map item_ids cs)) = mset (nodes (final_graph m k))
               \<and> {0..<shape0 m} \<subseteq> set (nodes (final_graph m k))
               \<and> (shape1 m = shape0 m \<longrightarrow> nodes (final_graph m k) = [0..<shape0 m])))
         \<and> (length questions < shape0 m \<longrightarrow>
              find_clusters_deterministic rt questions m k = Inl IndexError)"
proof (intro conjI impI)
  assume le: "shape0 m \<le> length questions \<and> shape1 m \<le> length questions"
  have "\<forall>i\<in>set (nodes (final_graph m k)). i < length questions"
    using final_graph_nodes_bounds(2) [of m k] le by auto
  from find_clusters_partition [OF assms this] obtain cs where
    "find_clusters_deterministic rt questions m k = Inr cs"
    "mset (concat (map item_ids cs)) = mset (nodes (final_graph m k))"
    by blast
  moreover have "shape1 m = shape0 m \<longrightarrow> nodes (final_graph m k) = [0..<shape0 m]"
    using final_graph_nodes [of m "shape0 m" k] by simp
  ultimately show "\<exists>cs. find_clusters_deterministic rt questions m k = Inr cs
      \<and> mset (concat (map item_ids cs)) = mset (nodes (final_graph m k))
      \<and> {0..<shape0 m} \<subseteq> set (nodes (final_graph m k))
      \<and> (shape1 m = shape0 m \<longrightarrow> nodes (final_graph m k) = [0..<shape0 m])"
    using final_graph_nodes_bounds(1) [of m k] by blast
next
  assume "length questions < shape0 m"
  then show "find_clusters_deterministic rt questions m k = Inl IndexError"
    by (rule find_clusters_too_few_questions [OF assms(2)])
qed

theorem no_shape_check_witness:
  "provider_ok reference_runtime
   \<and> set_iter_ok reference_runtime (final_graph small_matrix 1)
   \<and> shape0 small_matrix \<le> length example_questions
   \<and> shape1 small_matrix \<le> length example_questions
   \<and> shape1 small_matrix = shape0 small_matrix
   \<and> (\<exists>cs. find_clusters_deterministic reference_runtime example_questions small_matrix 1
              = Inr cs
          \<and> mset (concat (map item_ids cs)) = mset [0..<2])
   \<and> set_iter_ok reference_runtime (final_graph example_matrix 2)
   \<and> length (take 2 example_questions) < shape0 example_matrix
   \<and> find_clusters_deterministic reference_runtime (take 2 example_questions)
        example_matrix 2 = Inl IndexError"
proof -
  have s: "shape0 small_matrix = 2" "shape1 small_matrix = 2"
    by (simp_all add: small_matrix_def of_rows_def)
  have l: "length example_questions = 4" by (simp add: example_questions_def)
  have e: "shape0 example_matrix = 4" by (simp add: example_matrix_def of_rows_def)
  from no_shape_check [OF provider_ok_reference small_set_iter_ok, of example_questions]
  have a: "\<exists>cs. find_clusters_deterministic reference_runtime example_questions small_matrix 1
              = Inr cs
          \<and> mset (concat (map item_ids cs)) = mset [0..<2]"
    by (auto simp: s l)
  from no_shape_check [OF provider_ok_reference example_set_iter_ok,
      of "take 2 example_questions"]
  have b: "find_clusters_deterministic reference_runtime (take 2 example_questions)
        example_matrix 2 = Inl IndexError"
    by (simp add: e l)
  from a b show ?thesis
    using provider_ok_reference small_set_iter_ok example_set_iter_ok by (simp add: s l e)
qed

text \<open>
  The claim as stated fails for four questions and the matrix for two items: the shapes
  differ, and the function returns the cluster \<open>{0, 1}\<close> instead of raising.
\<close>

theorem no_shape_check_counterexample:
  "\<not> valid_input example_questions small_matrix
   \<and> find_clusters_deterministic reference_runtime example_questions small_matrix 1
     = Inr (projr (find_clusters_deterministic reference_runtime example_questions
                     small_matrix 1))
   \<and> map item_ids (projr (find_clusters_deterministic reference_runtime example_questions
                             small_matrix 1)) = [[0, 1]]"
proof -
  have s: "shape0 small_matrix = 2" "shape1 small_matrix = 2"
    by (simp_all add: small_matrix_def of_rows_def)
  have l: "length example_questions = 4" by (simp add: example_questions_def)
  have n: "nodes (final_graph small_matrix 1) = [0, 1]" by (simp add: small_final_graph)
  have "\<forall>i\<in>set (nodes (final_graph small_matrix 1)). i < length example_questions"
    unfolding n l by simp
  from find_clusters_char [OF small_set_iter_ok provider_ok_reference this final_graph_ok]
  obtain cs where
    "find_clusters_deterministic reference_runtime example_questions small_matrix 1 = Inr cs"
    "map item_ids cs = [[0, 1]]"
    by (auto simp: small_components reference_runtime_def cpython_small)
  then show ?thesis by (simp add: valid_input_def s l)
qed

lemma slice_from_all: "int (length xs) \<le> top_k \<Longrightarrow> 0 < top_k \<Longrightarrow> slice_from xs (- top_k) = xs"
  by (simp add: slice_from_def Let_def)

lemma is_argsort_stable: "is_argsort v (stable_argsort v)"
  by (simp add: is_argsort_def stable_argsort_def sorted_sort_key)

lemma mset_map_nth:
  assumes "mset idxs = mset [0..<length xs]"
  shows "mset (map (\<lambda>i. xs ! i) idxs) = mset xs"
proof -
  have "mset (map (\<lambda>i. xs ! i) idxs) = image_mset (\<lambda>i. xs ! i) (mset idxs)" by simp
  also have "\<dots> = mset (map (\<lambda>i. xs ! i) [0..<length xs])" unfolding assms by simp
  also have "\<dots> = mset xs" by (simp add: map_nth)
  finally show ?thesis .
qed

lemma merge_loop_score:
  "snd (merge_loop k es (g, sc)) v = sc v + sum_list (map (gain v) (accepted k es g))"
proof (induction es arbitrary: g sc)
  case Nil
  show ?case by simp
next
  case (Cons e es)
  obtain y x s where e: "e = ((y, x), s)" by (metis surj_pair)
  show ?case
  proof (cases "x \<noteq> y \<and> \<not> int (number_connected_components g) \<le> k")
    case True
    define sc' where "sc' = (sc(x := sc x + s))(y := (sc(x := sc x + s)) y + s)"
    have 1: "merge_loop k (e # es) (g, sc) = merge_loop k es (add_edge g y x, sc')"
      using True by (simp add: e Let_def sc'_def)
    have 2: "accepted k (e # es) g = e # accepted k es (add_edge g y x)"
      using True by (simp add: e)
    have 3: "sc' v = sc v + gain v e" using True by (auto simp: sc'_def gain_def e)
    show ?thesis unfolding 1 2 Cons.IH [of "add_edge g y x" sc'] 3 by simp
  next
    case False
    then consider "x = y" | "x \<noteq> y" "int (number_connected_components g) \<le> k" by blast
    then show ?thesis
    proof cases
      case 1
      with Cons.IH [of g sc] show ?thesis by (simp add: e)
    next
      case 2
      then show ?thesis by (simp add: e)
    qed
  qed
qed

lemma total_score_accepted:
  "total_score m k v = sum_list (map (gain v) (accepted_edges m k))"
  by (simp add: total_score_def merge_def accepted_edges_def merge_loop_score)

lemma set_accepted: "set (accepted k es g) \<subseteq> set es"
proof (induction es arbitrary: g)
  case Nil
  show ?case by simp
next
  case (Cons e es)
  obtain y x s where e: "e = ((y, x), s)" by (metis surj_pair)
  from Cons.IH [of g] Cons.IH [of "add_edge g y x"] show ?case
    by (auto simp: e)
qed

lemma distinct_accepted: "distinct (map fst es) \<Longrightarrow> distinct (map fst (accepted k es g))"
proof (induction es arbitrary: g)
  case Nil
  show ?case by simp
next
  case (Cons e es)
  obtain y x s where e: "e = ((y, x), s)" by (metis surj_pair)
  have "(y, x) \<notin> fst ` set (accepted k es (add_edge g y x))"
    using Cons.prems set_accepted [of k es "add_edge g y x"] by (auto simp: e)
  with Cons.IH [of g] Cons.IH [of "add_edge g y x"] Cons.prems show ?case
    by (auto simp: e)
qed

lemma map_fst_coord_to_sim:
  "map fst (coord_to_sim a) = List.product [0..<shape0 a] [0..<shape1 a]"
proof -
  have "map fst (concat (map (\<lambda>y. map (\<lambda>x. ((y, x), f y x)) xs) ys)) = List.product ys xs"
    for f :: "nat \<Rightarrow> nat \<Rightarrow> real" and xs ys
    by (induction ys) (simp_all add: comp_def)
  then show ?thesis by (simp add: coord_to_sim_def)
qed

lemma distinct_ranked_edges: "distinct (map fst (ranked_edges m))"
proof -
  have "distinct (map fst (coord_to_sim (np_abs m)))"
    by (simp add: map_fst_coord_to_sim distinct_product)
  moreover have "mset (map fst (ranked_edges m)) = mset (map fst (coord_to_sim (np_abs m)))"
    by (simp add: ranked_edges_def)
  ultimately show ?thesis by (metis mset_eq_imp_distinct_iff)
qed

lemma accepted_edges_weight:
  "((y, x), s) \<in> set (accepted_edges m k) \<Longrightarrow> s = \<bar>entry m y x\<bar>"
  using set_accepted [of k "ranked_edges m"] unfolding accepted_edges_def set_ranked_edges
  by auto

lemma distinct_accepted_edges: "distinct (map fst (accepted_edges m k))"
  unfolding accepted_edges_def by (rule distinct_accepted [OF distinct_ranked_edges])

lemma pair_gain_sum:
  assumes "i \<noteq> j"
    and "((i, j), w) \<in> set (accepted_edges m k)" and "((j, i), w') \<in> set (accepted_edges m k)"
  shows "sum_list (map (pair_gain i j) (accepted_edges m k)) = w + w'"
proof -
  let ?A = "accepted_edges m k"
  have dk: "distinct (map fst ?A)" by (rule distinct_accepted_edges)
  then have d: "distinct ?A" by (simp add: distinct_map)
  have inj: "inj_on fst (set ?A)" using dk by (simp add: distinct_map)
  have zero: "pair_gain i j e = 0" if "e \<in> set ?A - {((i, j), w), ((j, i), w')}" for e
  proof -
    have "fst e \<noteq> (i, j)"
    proof
      assume "fst e = (i, j)"
      then have "fst e = fst ((i, j), w)" by simp
      then have "e = ((i, j), w)" using inj_onD [OF inj, of e "((i, j), w)"] that assms(2) by blast
      with that show False by simp
    qed
    moreover have "fst e \<noteq> (j, i)"
    proof
      assume "fst e = (j, i)"
      then have "fst e = fst ((j, i), w')" by simp
      then have "e = ((j, i), w')" using inj_onD [OF inj, of e "((j, i), w')"] that assms(3) by blast
      with that show False by simp
    qed
    ultimately show ?thesis by (simp add: pair_gain_def)
  qed
  have "sum_list (map (pair_gain i j) ?A) = sum (pair_gain i j) (set ?A)"
    using d by (rule sum_list_distinct_conv_sum_set)
  also have "\<dots> = sum (pair_gain i j) {((i, j), w), ((j, i), w')}"
    using assms(2,3) zero by (intro sum.mono_neutral_right) auto
  also have "\<dots> = w + w'" using assms(1) by (simp add: pair_gain_def)
  finally show ?thesis .
qed

lemma pair_gain_le_gain:
  assumes "e \<in> set (accepted_edges m k)"
  shows "pair_gain i j e \<le> gain i e" "pair_gain i j e \<le> gain j e"
proof -
  obtain y x s where e: "e = ((y, x), s)" by (metis surj_pair)
  have "0 \<le> s" using accepted_edges_weight [of y x s m k] assms by (simp add: e)
  then show "pair_gain i j e \<le> gain i e" "pair_gain i j e \<le> gain j e"
    by (auto simp: pair_gain_def gain_def e)
qed

lemma pair_gain_le_total:
  "sum_list (map (pair_gain i j) (accepted_edges m k)) \<le> total_score m k i"
  "sum_list (map (pair_gain i j) (accepted_edges m k)) \<le> total_score m k j"
  unfolding total_score_accepted by (intro sum_list_mono pair_gain_le_gain; assumption)+

text \<open>
  C10 (both directions are counted). For an \<open>N \<times> N\<close> matrix and two different
  items \<open>i, j < N\<close>, the ranked list holds both directed copies \<open>(i, j)\<close> and \<open>(j, i)\<close>, each
  with the absolute value of its entry. The score of an item is the sum of the weights
  of the accepted directed edges that touch it. So when the two entries are equal and
  both copies are accepted before the loop stops, the edges between \<open>i\<close> and \<open>j\<close> add
  the weight twice to the score of \<open>i\<close> and twice to the score of \<open>j\<close>.
\<close>

theorem both_directions_counted:
  assumes "shape0 m = n" and "shape1 m = n" and "i < n" and "j < n" and "i \<noteq> j"
  shows "((i, j), \<bar>entry m i j\<bar>) \<in> set (ranked_edges m)
         \<and> ((j, i), \<bar>entry m j i\<bar>) \<in> set (ranked_edges m)
         \<and> total_score m k i = sum_list (map (gain i) (accepted_edges m k))
         \<and> total_score m k j = sum_list (map (gain j) (accepted_edges m k))
         \<and> (entry m i j = entry m j i
              \<and> ((i, j), \<bar>entry m i j\<bar>) \<in> set (accepted_edges m k)
              \<and> ((j, i), \<bar>entry m j i\<bar>) \<in> set (accepted_edges m k)
            \<longrightarrow> sum_list (map (pair_gain i j) (accepted_edges m k)) = 2 * \<bar>entry m i j\<bar>
                \<and> 2 * \<bar>entry m i j\<bar> \<le> total_score m k i
                \<and> 2 * \<bar>entry m i j\<bar> \<le> total_score m k j)"
proof (intro conjI impI)
  show "((i, j), \<bar>entry m i j\<bar>) \<in> set (ranked_edges m)"
    "((j, i), \<bar>entry m j i\<bar>) \<in> set (ranked_edges m)"
    using assms by (auto simp: set_ranked_edges)
  show "total_score m k i = sum_list (map (gain i) (accepted_edges m k))"
    "total_score m k j = sum_list (map (gain j) (accepted_edges m k))"
    by (rule total_score_accepted)+
next
  assume a: "entry m i j = entry m j i
      \<and> ((i, j), \<bar>entry m i j\<bar>) \<in> set (accepted_edges m k)
      \<and> ((j, i), \<bar>entry m j i\<bar>) \<in> set (accepted_edges m k)"
  then have a1: "((i, j), \<bar>entry m i j\<bar>) \<in> set (accepted_edges m k)"
    and a2: "((j, i), \<bar>entry m j i\<bar>) \<in> set (accepted_edges m k)"
    by blast+
  have "sum_list (map (pair_gain i j) (accepted_edges m k))
             = \<bar>entry m i j\<bar> + \<bar>entry m j i\<bar>"
    by (rule pair_gain_sum [OF assms(5) a1 a2])
  with a have s: "sum_list (map (pair_gain i j) (accepted_edges m k)) = 2 * \<bar>entry m i j\<bar>"
    by simp
  then show "sum_list (map (pair_gain i j) (accepted_edges m k)) = 2 * \<bar>entry m i j\<bar>" .
  from s pair_gain_le_total [of i j m k]
  show "2 * \<bar>entry m i j\<bar> \<le> total_score m k i" "2 * \<bar>entry m i j\<bar> \<le> total_score m k j"
    by simp_all
qed

lemma example_accepted:
  "accepted_edges example_matrix 2 = [((0, 1), 9/10), ((1, 0), 9/10), ((2, 3), 8/10)]"
  by (simp add: accepted_edges_def example_matrix_def eval_matrix eval_graph)

theorem both_directions_counted_witness:
  "shape0 example_matrix = 4 \<and> shape1 example_matrix = 4 \<and> (0::nat) < 4 \<and> (1::nat) < 4
   \<and> (0::nat) \<noteq> 1
   \<and> entry example_matrix 0 1 = entry example_matrix 1 0
   \<and> ((0, 1), \<bar>entry example_matrix 0 1\<bar>) \<in> set (accepted_edges example_matrix 2)
   \<and> ((1, 0), \<bar>entry example_matrix 1 0\<bar>) \<in> set (accepted_edges example_matrix 2)
   \<and> \<bar>entry example_matrix 0 1\<bar> = 9/10
   \<and> sum_list (map (pair_gain 0 1) (accepted_edges example_matrix 2)) = 2 * (9/10)
   \<and> total_score example_matrix 2 0 = 2 * (9/10)
   \<and> total_score example_matrix 2 1 = 2 * (9/10)"
proof -
  have sh: "shape0 example_matrix = 4" "shape1 example_matrix = 4"
    by (simp_all add: example_matrix_def of_rows_def)
  have en: "entry example_matrix 0 1 = 9/10" "entry example_matrix 1 0 = 9/10"
    by (simp_all add: example_matrix_def of_rows_def)
  have acc: "((0, 1), \<bar>entry example_matrix 0 1\<bar>) \<in> set (accepted_edges example_matrix 2)"
    "((1, 0), \<bar>entry example_matrix 1 0\<bar>) \<in> set (accepted_edges example_matrix 2)"
    unfolding en example_accepted by simp_all
  have sym: "entry example_matrix 0 1 = entry example_matrix 1 0" unfolding en ..
  have "(0::nat) < 4" "(1::nat) < 4" "(0::nat) \<noteq> 1" by simp_all
  from both_directions_counted [OF sh this, of 2] sym acc
  have "sum_list (map (pair_gain 0 1) (accepted_edges example_matrix 2))
        = 2 * \<bar>entry example_matrix 0 1\<bar>"
    by blast
  then have "sum_list (map (pair_gain 0 1) (accepted_edges example_matrix 2)) = 2 * (9/10)"
    unfolding en by simp
  moreover have "\<bar>entry example_matrix 0 1\<bar> = 9/10" unfolding en by simp
  moreover have "total_score example_matrix 2 0 = 2 * (9/10)"
    "total_score example_matrix 2 1 = 2 * (9/10)"
    unfolding example_scores by simp_all
  ultimately show ?thesis using sh sym acc by simp
qed

lemma accepted_all:
  "k \<le> 0 \<Longrightarrow> nodes g \<noteq> [] \<Longrightarrow>
   accepted k es g = filter (\<lambda>item. snd (fst item) \<noteq> fst (fst item)) es"
proof (induction es arbitrary: g)
  case Nil
  show ?case by simp
next
  case (Cons e es)
  obtain y x s where e: "e = ((y, x), s)" by (metis surj_pair)
  have pos: "\<not> int (number_connected_components g) \<le> k"
    using number_connected_components_pos [OF Cons.prems(2)] Cons.prems(1) by simp
  have "set (nodes (add_edge g y x)) \<noteq> {}" by (simp add: set_nodes_add_edge)
  then have ne: "nodes (add_edge g y x) \<noteq> []" by auto
  from Cons.IH [OF Cons.prems(1) ne] Cons.IH [OF Cons.prems] pos show ?case
    by (simp add: e)
qed

lemma accepted_edges_all:
  assumes "k \<le> 0" and "1 \<le> shape0 m"
  shows "accepted_edges m k
         = filter (\<lambda>item. snd (fst item) \<noteq> fst (fst item)) (ranked_edges m)"
proof -
  have "nodes \<lparr>nodes = [0..<shape0 m], edges = []\<rparr> \<noteq> []" using assms(2) by simp
  from accepted_all [OF assms(1) this] show ?thesis
    by (simp add: accepted_edges_def initial_graph)
qed

lemma sum_list_gain_row:
  "sum_list (map (gain v) (filter (\<lambda>item. snd (fst item) \<noteq> fst (fst item))
       (map (\<lambda>x. ((y, x), w y x)) xs)))
   = (\<Sum>x\<leftarrow>xs. if x \<noteq> y \<and> (v = y \<or> v = x) then w y x else 0)"
  by (induction xs) (auto simp: gain_def)

lemma sum_list_gain_coords:
  "sum_list (map (gain v) (filter (\<lambda>item. snd (fst item) \<noteq> fst (fst item))
       (concat (map (\<lambda>y. map (\<lambda>x. ((y, x), w y x)) xs) ys))))
   = (\<Sum>y\<leftarrow>ys. \<Sum>x\<leftarrow>xs. if x \<noteq> y \<and> (v = y \<or> v = x) then w y x else 0)"
  by (induction ys) (simp_all add: sum_list_gain_row)

lemma sum_list_ranked:
  fixes f :: "(nat \<times> nat) \<times> real \<Rightarrow> real"
  shows "sum_list (map f (filter P (ranked_edges m)))
   = sum_list (map f (filter P (coord_to_sim (np_abs m))))"
proof -
  have "mset (map f (filter P (ranked_edges m)))
        = mset (map f (filter P (coord_to_sim (np_abs m))))"
    by (simp add: ranked_edges_def)
  then have "sum_mset (mset (map f (filter P (ranked_edges m))))
        = sum_mset (mset (map f (filter P (coord_to_sim (np_abs m)))))"
    by (rule arg_cong)
  then show ?thesis by (simp only: sum_mset_sum_list)
qed

lemma sum_list_if_absent:
  "v \<notin> set xs \<Longrightarrow> (\<Sum>x\<leftarrow>xs. if x = v then c else 0) = (0::real)"
  by (induction xs) auto

lemma sum_list_if_distinct:
  "distinct xs \<Longrightarrow> v \<in> set xs \<Longrightarrow> (\<Sum>x\<leftarrow>xs. if x = v then c else 0) = (c::real)"
  by (induction xs) (auto simp: sum_list_if_absent)

lemma double_sum_touching:
  fixes w :: "nat \<Rightarrow> nat \<Rightarrow> real"
  assumes "v < n"
  shows "(\<Sum>y\<leftarrow>[0..<n]. \<Sum>x\<leftarrow>[0..<n]. if x \<noteq> y \<and> (v = y \<or> v = x) then w y x else 0)
         = (\<Sum>j\<leftarrow>[0..<n]. if j \<noteq> v then w v j + w j v else 0)"
proof -
  let ?f = "\<lambda>y x. if x \<noteq> y \<and> (v = y \<or> v = x) then w y x else 0"
  have inner: "(\<Sum>x\<leftarrow>[0..<n]. ?f y x)
               = (if y = v then (\<Sum>x\<leftarrow>[0..<n]. if x \<noteq> v then w v x else 0) else w y v)"
    if "y < n" for y
  proof (cases "y = v")
    case True
    then show ?thesis by (auto intro: arg_cong [where f = sum_list])
  next
    case False
    have "(\<Sum>x\<leftarrow>[0..<n]. ?f y x) = (\<Sum>x\<leftarrow>[0..<n]. if x = v then w y v else 0)"
      using False by (intro arg_cong [where f = sum_list] map_cong) auto
    also have "\<dots> = w y v" using assms by (intro sum_list_if_distinct) auto
    finally show ?thesis using False by simp
  qed
  have "(\<Sum>y\<leftarrow>[0..<n]. \<Sum>x\<leftarrow>[0..<n]. ?f y x)
        = (\<Sum>y\<leftarrow>[0..<n]. if y = v then (\<Sum>x\<leftarrow>[0..<n]. if x \<noteq> v then w v x else 0)
                            else w y v)"
    using inner by (intro arg_cong [where f = sum_list] map_cong) auto
  also have "\<dots> = (\<Sum>y\<leftarrow>[0..<n]. (if y = v then (\<Sum>x\<leftarrow>[0..<n]. if x \<noteq> v then w v x else 0) else 0)
                              + (if y \<noteq> v then w y v else 0))"
    by (intro arg_cong [where f = sum_list] map_cong) auto
  also have "\<dots> = (\<Sum>y\<leftarrow>[0..<n]. if y = v then (\<Sum>x\<leftarrow>[0..<n]. if x \<noteq> v then w v x else 0) else 0)
                   + (\<Sum>y\<leftarrow>[0..<n]. if y \<noteq> v then w y v else 0)"
    by (simp add: sum_list_addf)
  also have "(\<Sum>y\<leftarrow>[0..<n]. if y = v then (\<Sum>x\<leftarrow>[0..<n]. if x \<noteq> v then w v x else 0) else 0)
             = (\<Sum>x\<leftarrow>[0..<n]. if x \<noteq> v then w v x else 0)"
    using assms by (intro sum_list_if_distinct) auto
  also have "(\<Sum>x\<leftarrow>[0..<n]. if x \<noteq> v then w v x else 0)
             + (\<Sum>y\<leftarrow>[0..<n]. if y \<noteq> v then w y v else 0)
             = (\<Sum>j\<leftarrow>[0..<n]. (if j \<noteq> v then w v j else 0) + (if j \<noteq> v then w j v else 0))"
    by (simp add: sum_list_addf)
  also have "\<dots> = (\<Sum>j\<leftarrow>[0..<n]. if j \<noteq> v then w v j + w j v else 0)"
    by (intro arg_cong [where f = sum_list] map_cong) auto
  finally show ?thesis .
qed

lemma total_score_all_accepted:
  assumes "shape0 m = n" and "shape1 m = n" and "v < n" and "k \<le> 0"
  shows "total_score m k v = full_score m v"
proof -
  have "1 \<le> shape0 m" using assms by simp
  then have "total_score m k v
     = sum_list (map (gain v) (filter (\<lambda>item. snd (fst item) \<noteq> fst (fst item))
         (coord_to_sim (np_abs m))))"
    by (simp add: total_score_accepted accepted_edges_all [OF assms(4)] sum_list_ranked)
  also have "\<dots> = (\<Sum>y\<leftarrow>[0..<n]. \<Sum>x\<leftarrow>[0..<n].
        if x \<noteq> y \<and> (v = y \<or> v = x) then \<bar>entry m y x\<bar> else 0)"
    unfolding coord_to_sim_def
    using sum_list_gain_coords [of v "\<lambda>y x. \<bar>entry m y x\<bar>" "[0..<n]" "[0..<n]"]
    by (simp add: np_abs_def assms)
  also have "\<dots> = full_score m v"
    unfolding full_score_def assms(1) by (rule double_sum_touching [OF assms(3)])
  finally show ?thesis .
qed

text \<open>
  C7 (no check of \<open>num_clusters\<close>), as the code has it. With \<open>num_clusters \<le> 0\<close> the
  stop condition never holds on a graph with a node. So on a valid input with
  \<open>N \<ge> 1\<close> questions the loop accepts every off-diagonal pair of the ranked list, the
  score of every item is the sum, over every other item, of the weights of the two
  directed pairs between them, and the function returns one cluster that holds all
  \<open>N\<close> items; no error is raised.
\<close>

theorem nonpositive_num_clusters:
  assumes "valid_input questions m" and "1 \<le> length questions" and "k \<le> 0"
    and "provider_ok rt" and "set_iter_ok rt (final_graph m k)"
  shows "accepted_edges m k
           = filter (\<lambda>item. snd (fst item) \<noteq> fst (fst item)) (ranked_edges m)
         \<and> (\<forall>v<length questions. total_score m k v = full_score m v)
         \<and> (\<exists>c. find_clusters_deterministic rt questions m k = Inr [c]
               \<and> mset (item_ids c) = mset [0..<length questions])"
proof -
  let ?n = "length questions"
  have shape: "shape0 m = ?n" "shape1 m = ?n" using assms(1) by (simp_all add: valid_input_def)
  have acc: "accepted_edges m k
             = filter (\<lambda>item. snd (fst item) \<noteq> fst (fst item)) (ranked_edges m)"
    using assms(2) by (intro accepted_edges_all [OF assms(3)]) (simp add: shape)
  have sc: "\<forall>v<?n. total_score m k v = full_score m v"
    using total_score_all_accepted [OF shape _ assms(3)] by blast
  have nodes: "nodes (final_graph m k) = [0..<?n]" by (rule final_graph_nodes [OF shape])
  then have "\<forall>i\<in>set (nodes (final_graph m k)). i < ?n" by simp
  from find_clusters_partition [OF assms(4,5) this] obtain cs where
    cs: "find_clusters_deterministic rt questions m k = Inr cs"
    and ms: "mset (concat (map item_ids cs)) = mset [0..<?n]"
    and len: "length cs = number_connected_components (final_graph m k)"
    unfolding nodes by blast
  have "int (length cs) = 1"
    using number_connected_components_final [OF shape assms(2), of k] assms(3) len by simp
  then obtain c where c: "cs = [c]" by (cases cs) auto
  from cs ms have "\<exists>c. find_clusters_deterministic rt questions m k = Inr [c]
               \<and> mset (item_ids c) = mset [0..<?n]"
    unfolding c by simp
  with acc sc show ?thesis by blast
qed

lemma example_ranked_off_diagonal:
  "filter (\<lambda>item. snd (fst item) \<noteq> fst (fst item)) (ranked_edges example_matrix)
   = [((0, 1), 9/10), ((1, 0), 9/10), ((2, 3), 8/10), ((3, 2), 8/10),
      ((0, 2), 1/10), ((0, 3), 1/10), ((1, 2), 1/10), ((1, 3), 1/10),
      ((2, 0), 1/10), ((2, 1), 1/10), ((3, 0), 1/10), ((3, 1), 1/10)]"
  by (simp add: example_matrix_def eval_matrix)

lemma example_full_score: "full_score example_matrix 0 = 22/10"
  by (simp add: full_score_def example_matrix_def of_rows_def
        upt_rec [of _ "numeral _"] upt_rec [of _ "Suc _"])

theorem nonpositive_num_clusters_witness:
  "valid_input example_questions example_matrix \<and> 1 \<le> length example_questions
   \<and> (0::int) \<le> 0 \<and> provider_ok reference_runtime
   \<and> set_iter_ok reference_runtime (final_graph example_matrix 0)
   \<and> accepted_edges example_matrix 0
     = [((0, 1), 9/10), ((1, 0), 9/10), ((2, 3), 8/10), ((3, 2), 8/10),
        ((0, 2), 1/10), ((0, 3), 1/10), ((1, 2), 1/10), ((1, 3), 1/10),
        ((2, 0), 1/10), ((2, 1), 1/10), ((3, 0), 1/10), ((3, 1), 1/10)]
   \<and> (0::nat) < length example_questions
   \<and> total_score example_matrix 0 0 = 22/10
   \<and> (\<exists>c. find_clusters_deterministic reference_runtime example_questions example_matrix 0
             = Inr [c]
          \<and> mset (item_ids c) = mset [0..<length example_questions])"
proof -
  have 1: "1 \<le> length example_questions" by (simp add: example_questions_def)
  have 2: "(0::int) \<le> 0" by simp
  have 3: "(0::nat) < length example_questions" by (simp add: example_questions_def)
  from nonpositive_num_clusters [OF example_valid 1 2 provider_ok_reference
      example_set_iter_ok_0]
  have a: "accepted_edges example_matrix 0
           = filter (\<lambda>item. snd (fst item) \<noteq> fst (fst item)) (ranked_edges example_matrix)"
    and b: "\<forall>v<length example_questions. total_score example_matrix 0 v
              = full_score example_matrix v"
    and c: "\<exists>c. find_clusters_deterministic reference_runtime example_questions
              example_matrix 0 = Inr [c]
          \<and> mset (item_ids c) = mset [0..<length example_questions]"
    by blast+
  from b 3 have "total_score example_matrix 0 0 = 22/10"
    unfolding example_full_score [symmetric] by blast
  with a c show ?thesis
    unfolding example_ranked_off_diagonal
    using example_valid 1 3 provider_ok_reference example_set_iter_ok_0 by blast
qed

lemma vector_sum_nth:
  "\<forall>v\<in>set vs. length v = d \<Longrightarrow> vector_sum d vs = map (\<lambda>j. \<Sum>v\<leftarrow>vs. v ! j) [0..<d]"
proof (induction vs)
  case Nil
  show ?case by (simp add: vector_sum_def map_replicate_const)
next
  case (Cons v vs)
  then have ih: "vector_sum d vs = map (\<lambda>j. \<Sum>v\<leftarrow>vs. v ! j) [0..<d]" and len: "length v = d"
    by simp_all
  have "vector_sum d (v # vs) = map2 (+) v (vector_sum d vs)" by (simp add: vector_sum_def)
  also have "\<dots> = map (\<lambda>j. \<Sum>v\<leftarrow>v # vs. v ! j) [0..<d]"
    unfolding ih by (rule nth_equalityI) (simp_all add: len)
  finally show ?case .
qed

lemma mean_axis0_cluster_embedding: "mean_axis0 a = cluster_embedding a"
proof -
  have "vector_sum (shape1 a) (map (row a) [0..<shape0 a])
        = map (\<lambda>j. \<Sum>v\<leftarrow>map (row a) [0..<shape0 a]. v ! j) [0..<shape1 a]"
    by (rule vector_sum_nth) (auto simp: row_def)
  also have "\<dots> = map (\<lambda>j. \<Sum>i\<leftarrow>[0..<shape0 a]. entry a i j) [0..<shape1 a]"
    by (rule map_cong) (simp_all add: row_def comp_def)
  finally show ?thesis by (simp add: mean_axis0_def cluster_embedding_def comp_def)
qed

lemma sum_list_zip_scaled:
  fixes c d :: real
  shows "(\<Sum>(a, b)\<leftarrow>zip (map (\<lambda>x. x / c) u) (map (\<lambda>x. x / d) v). a * b)
         = (\<Sum>(a, b)\<leftarrow>zip u v. a * b) / (c * d)"
proof (induction u arbitrary: v)
  case Nil
  show ?case by simp
next
  case (Cons x u)
  show ?case by (cases v) (simp_all add: Cons.IH add_divide_distrib)
qed

lemma dot_self: "dot v v = (\<Sum>c\<leftarrow>v. c * c)"
  by (induction v) (simp_all add: dot_def)

lemma dot_self_nonneg: "0 \<le> dot v v"
  unfolding dot_self by (rule sum_list_nonneg) auto

lemma dot_zero_left:
  assumes "dot u u = 0"
  shows "dot u v = 0"
proof -
  have z: "\<forall>c\<in>set u. c = 0"
  proof -
    have "(\<Sum>c\<leftarrow>u. c * c) = 0" using assms by (simp add: dot_self)
    then have "\<forall>x\<in>set (map (\<lambda>c. c * c) u). x = 0"
      by (subst (asm) sum_list_nonneg_eq_0_iff) auto
    then show ?thesis by auto
  qed
  have "\<forall>c\<in>set u. c = 0 \<Longrightarrow> (\<Sum>(a, b)\<leftarrow>zip u v. a * b) = 0" for v
  proof (induction u arbitrary: v)
    case Nil
    show ?case by simp
  next
    case (Cons x u)
    then show ?case by (cases v) simp_all
  qed
  with z show ?thesis by (simp add: dot_def)
qed

lemma dot_commute: "dot u v = dot v u"
proof -
  have "(\<Sum>(a, b)\<leftarrow>zip u v. a * b) = (\<Sum>(a, b)\<leftarrow>zip v u. a * b)"
  proof (induction u arbitrary: v)
    case Nil
    show ?case by simp
  next
    case (Cons x u)
    show ?case by (cases v) (simp_all add: Cons.IH mult.commute)
  qed
  then show ?thesis by (simp add: dot_def)
qed

lemma cosine_similarity_spec: "cosine_similarity u v = spec_cosine u v"
proof -
  let ?nu = "sqrt (\<Sum>c\<leftarrow>u. c * c)" and ?nv = "sqrt (\<Sum>c\<leftarrow>v. c * c)"
  let ?nu' = "if ?nu = 0 then 1 else ?nu" and ?nv' = "if ?nv = 0 then 1 else ?nv"
  have nu: "?nu = euclidean_norm u" and nv: "?nv = euclidean_norm v"
    by (simp_all add: euclidean_norm_def dot_self)
  have c: "cosine_similarity u v = dot u v / (?nu' * ?nv')"
    unfolding cosine_similarity_def l2_normalize_def Let_def dot_def
    by (rule sum_list_zip_scaled)
  show ?thesis
  proof (cases "?nu = 0 \<or> ?nv = 0")
    case True
    then have "dot u u = 0 \<or> dot v v = 0" by (simp add: dot_self)
    then have "dot u v = 0" using dot_zero_left [of u v] dot_zero_left [of v u] dot_commute [of u v]
      by auto
    then show ?thesis unfolding c spec_cosine_def by simp
  next
    case False
    then show ?thesis unfolding c spec_cosine_def nu nv by simp
  qed
qed

lemma similarities_spec:
  "i < shape0 embeddings \<Longrightarrow> similarities embeddings ! i = similarity_to_mean embeddings i"
  by (simp add: similarities_def similarity_to_mean_def cosine_similarity_spec
        mean_axis0_cluster_embedding)

text \<open>
  C9 (representative texts of a small cluster). For an empty cluster the function
  returns the empty list and makes no call to the embedding provider. For a cluster of
  \<open>n \<ge> 1\<close> items with \<open>n < top_k\<close> it calls the provider once, on the texts of the
  cluster, and returns the texts at a rearrangement of the indices \<open>0, \<dots>, n - 1\<close>
  (so every member's text exactly once) along which the cosine similarity of the
  member's embedding to the mean of the cluster's embeddings, as the specification
  defines it, does not increase. The provider is assumed to return one embedding per
  text and \<^verbatim>\<open>argsort\<close> to sort the array it is given.
\<close>

theorem small_cluster_keywords:
  "generate_semantic_keywords rt [] top_k = (Inr [], [])
   \<and> (cluster_items \<noteq> [] \<and> int (length cluster_items) < top_k
        \<and> shape0 (encode rt (map question_text cluster_items)) = length cluster_items
        \<and> is_argsort (similarities (encode rt (map question_text cluster_items)))
             (argsort rt (similarities (encode rt (map question_text cluster_items))))
      \<longrightarrow> (\<exists>idxs.
             generate_semantic_keywords rt cluster_items top_k
               = (Inr (map (\<lambda>i. map question_text cluster_items ! i) idxs),
                  [map question_text cluster_items])
             \<and> mset idxs = mset [0..<length cluster_items]
             \<and> mset (map (\<lambda>i. map question_text cluster_items ! i) idxs)
                 = mset (map question_text cluster_items)
             \<and> sorted_wrt (\<lambda>a b. b \<le> a)
                 (map (similarity_to_mean (encode rt (map question_text cluster_items)))
                    idxs)))"
proof (intro conjI impI)
  show "generate_semantic_keywords rt [] top_k = (Inr [], [])"
    by (simp add: generate_semantic_keywords_def)
next
  let ?texts = "map question_text cluster_items"
  let ?emb = "encode rt ?texts"
  let ?sims = "similarities ?emb"
  let ?idxs = "rev (argsort rt ?sims)"
  assume a: "cluster_items \<noteq> [] \<and> int (length cluster_items) < top_k
     \<and> shape0 ?emb = length cluster_items
     \<and> is_argsort ?sims (argsort rt ?sims)"
  then have len: "length ?sims = length cluster_items" by (simp add: similarities_def)
  from a have ms: "mset (argsort rt ?sims) = mset [0..<length cluster_items]"
    and srt: "sorted (map (\<lambda>i. ?sims ! i) (argsort rt ?sims))"
    by (simp_all add: is_argsort_def len)
  have "length (argsort rt ?sims) = length cluster_items"
    using ms by (metis length_upt minus_nat.diff_0 size_mset)
  then have sl: "slice_from (argsort rt ?sims) (- top_k) = argsort rt ?sims"
    using a by (intro slice_from_all) auto
  have 1: "mset ?idxs = mset [0..<length cluster_items]" using ms by simp
  have st: "set ?idxs = {0..<length ?texts}"
    using ms by (metis 1 length_map mset_eq_setD set_upt)
  then have "take_texts ?texts ?idxs = Inr (map (\<lambda>i. ?texts ! i) ?idxs)"
    by (intro take_texts_Inr) auto
  then have 2: "generate_semantic_keywords rt cluster_items top_k
                = (Inr (map (\<lambda>i. ?texts ! i) ?idxs), [?texts])"
    using a by (simp add: generate_semantic_keywords_def Let_def sl)
  have 3: "mset (map (\<lambda>i. ?texts ! i) ?idxs) = mset ?texts"
    by (rule mset_map_nth) (simp add: ms)
  have "sorted_wrt (\<lambda>a b. b \<le> a) (rev (map (\<lambda>i. ?sims ! i) (argsort rt ?sims)))"
    using srt by (simp add: sorted_wrt_rev)
  then have "sorted_wrt (\<lambda>a b. b \<le> a) (map (\<lambda>i. ?sims ! i) ?idxs)"
    by (simp only: rev_map)
  moreover have "map (\<lambda>i. ?sims ! i) ?idxs = map (similarity_to_mean ?emb) ?idxs"
  proof (rule map_cong [OF refl])
    fix i assume "i \<in> set ?idxs"
    then have "i < shape0 ?emb" using st a by simp
    then show "?sims ! i = similarity_to_mean ?emb i" by (rule similarities_spec)
  qed
  ultimately have 4: "sorted_wrt (\<lambda>a b. b \<le> a) (map (similarity_to_mean ?emb) ?idxs)"
    by simp
  from 1 2 3 4 show "\<exists>idxs.
      generate_semantic_keywords rt cluster_items top_k
        = (Inr (map (\<lambda>i. ?texts ! i) idxs), [?texts])
      \<and> mset idxs = mset [0..<length cluster_items]
      \<and> mset (map (\<lambda>i. ?texts ! i) idxs) = mset ?texts
      \<and> sorted_wrt (\<lambda>a b. b \<le> a) (map (similarity_to_mean ?emb) idxs)"
    by blast
qed

lemma short_long_similarities:
  "similarity_to_mean (encode reference_runtime (map question_text short_long_questions)) 0
     = 7 / (sqrt 10 * sqrt 5)"
  "similarity_to_mean (encode reference_runtime (map question_text short_long_questions)) 1
     = 13 / (sqrt 10 * sqrt 17)"
  by (simp_all add: similarity_to_mean_def spec_cosine_def euclidean_norm_def dot_def
        cluster_embedding_def vector_sum_def row_def reference_runtime_def
        length_encoder_def short_long_questions_def
        upt_rec [of _ "Suc _"] eval_nat_numeral)

lemma short_long_less: "7 / (sqrt 10 * sqrt 5) < 13 / (sqrt 10 * sqrt 17)"
proof -
  have "(7 * sqrt 17)\<^sup>2 < (13 * sqrt 5)\<^sup>2" by (simp add: power_mult_distrib)
  then have a: "7 * sqrt 17 < 13 * sqrt 5" by (rule power2_less_imp_less) simp
  have pos: "0 < sqrt 10 * sqrt 5 * sqrt 17" by simp
  have "7 / (sqrt 10 * sqrt 5) = (7 * sqrt 17) / (sqrt 10 * sqrt 5 * sqrt 17)" by simp
  also have "\<dots> < (13 * sqrt 5) / (sqrt 10 * sqrt 5 * sqrt 17)"
    using a pos by (rule divide_strict_right_mono)
  also have "\<dots> = 13 / (sqrt 10 * sqrt 17)" by simp
  finally show ?thesis .
qed

theorem small_cluster_keywords_witness:
  "short_long_questions \<noteq> [] \<and> int (length short_long_questions) < 5
   \<and> shape0 (encode reference_runtime (map question_text short_long_questions))
     = length short_long_questions
   \<and> is_argsort
       (similarities (encode reference_runtime (map question_text short_long_questions)))
       (argsort reference_runtime
         (similarities (encode reference_runtime (map question_text short_long_questions))))
   \<and> similarity_to_mean
       (encode reference_runtime (map question_text short_long_questions)) 0
     < similarity_to_mean
         (encode reference_runtime (map question_text short_long_questions)) 1
   \<and> generate_semantic_keywords reference_runtime short_long_questions 5
     = (Inr [''abcd'', ''ab''], [[''ab'', ''abcd'']])
   \<and> generate_semantic_keywords reference_runtime [] 5 = (Inr [], [])"
proof -
  let ?items = "short_long_questions"
  let ?emb = "encode reference_runtime (map question_text ?items)"
  have t: "map question_text ?items = [''ab'', ''abcd'']" by (simp add: short_long_questions_def)
  have 1: "?items \<noteq> []" "int (length ?items) < 5" by (simp_all add: short_long_questions_def)
  have 2: "shape0 ?emb = length ?items"
    by (simp add: reference_runtime_def length_encoder_def)
  have 3: "is_argsort (similarities ?emb) (argsort reference_runtime (similarities ?emb))"
    by (simp add: reference_runtime_def is_argsort_stable)
  have lt: "similarity_to_mean ?emb 0 < similarity_to_mean ?emb 1"
    unfolding short_long_similarities by (rule short_long_less)
  from small_cluster_keywords [of reference_runtime 5 ?items] 1 2 3
  obtain idxs where
    g: "generate_semantic_keywords reference_runtime ?items 5
       = (Inr (map (\<lambda>i. map question_text ?items ! i) idxs), [map question_text ?items])"
    and ms: "mset idxs = mset [0..<length ?items]"
    and srt: "sorted_wrt (\<lambda>a b. b \<le> a) (map (similarity_to_mean ?emb) idxs)"
    and e: "generate_semantic_keywords reference_runtime [] 5 = (Inr [], [])"
    by blast
  have l2: "length ?items = 2" by (simp add: short_long_questions_def)
  have "size (mset idxs) = 2" unfolding ms l2 by simp
  then have "length idxs = Suc (Suc 0)" by simp
  then obtain a b where ab: "idxs = [a, b]" by (auto simp: length_Suc_conv)
  have "set idxs = set [0..<length ?items]" using ms by (rule mset_eq_setD)
  moreover have "[0..<2::nat] = [0, 1]" by (simp add: eval_nat_numeral)
  ultimately have s01: "set idxs = {0, 1}" unfolding l2 by simp
  have "distinct idxs = distinct [0..<length ?items]" using ms by (rule mset_eq_imp_distinct_iff)
  then have "distinct idxs" by simp
  then have "a \<noteq> b" unfolding ab by simp
  moreover have "a \<in> set idxs" "b \<in> set idxs" unfolding ab by simp_all
  then have "a \<in> {0, 1}" "b \<in> {0, 1}" unfolding s01 by blast+
  then have "a = 0 \<or> a = 1" "b = 0 \<or> b = 1" by blast+
  ultimately have "(a = 0 \<and> b = 1) \<or> (a = 1 \<and> b = 0)" by blast
  moreover have "similarity_to_mean ?emb b \<le> similarity_to_mean ?emb a"
    using srt unfolding ab by simp
  ultimately have "a = 1 \<and> b = 0" using lt by auto
  then have r: "generate_semantic_keywords reference_runtime ?items 5
             = (Inr [''abcd'', ''ab''], [[''ab'', ''abcd'']])"
    using g unfolding ab t by simp
  show ?thesis by (intro conjI 1 2 3 lt r e)
qed

end
